theory Spec2Isabelle
  imports Complex_Main
begin

section \<open>The evaluation stages of arima-explore.py\<close>

text \<open>
  The pandas objects of the source are modelled by position: a boolean Series or a
  one-column DataFrame is a \<open>bool list\<close>, a column of event identifiers an \<open>int list\<close>
  (Python integers are unbounded). \<open>normal_lbl[i]\<close> and \<open>anomDetn[0][i]\<close> read
  position \<open>i\<close>; inside the loops below \<open>i\<close> and \<open>i - 1\<close> are always in range.
\<close>

subsection \<open>determine_events\<close>

text \<open>
  One iteration of the loop of \<open>determine_events\<close> at index \<open>i\<close>, on the state
  \<open>(event_count, events)\<close>. The input is \<open>normal_lbl\<close>: \<open>True\<close> marks a normal
  point, \<open>False\<close> a point labelled anomalous.
\<close>

fun events_step :: "bool list \<Rightarrow> int \<times> int list \<Rightarrow> nat \<Rightarrow> int \<times> int list" where
  "events_step normal_lbl (event_count, events) i =
     (if \<not> normal_lbl ! i then
        (if normal_lbl ! (i - 1)
         then (event_count + 1, (events[i - 1 := event_count + 1]) @ [event_count + 1])
         else (event_count, events @ [event_count]))
      else
        (if \<not> normal_lbl ! (i - 1)
         then (event_count, events @ [event_count])
         else (event_count, events @ [0])))"

definition determine_events :: "bool list \<Rightarrow> int list" where
  "determine_events normal_lbl =
     snd (foldl (events_step normal_lbl) (0, [0]) [1..<length normal_lbl])"

subsection \<open>determine_detections\<close>

text \<open>
  The same loop on the detection flags, where \<open>True\<close> marks a detection.
\<close>

fun detections_step :: "bool list \<Rightarrow> int \<times> int list \<Rightarrow> nat \<Rightarrow> int \<times> int list" where
  "detections_step anomDetn (det_count, det_events) i =
     (if anomDetn ! i then
        (if \<not> anomDetn ! (i - 1)
         then (det_count + 1, (det_events[i - 1 := det_count + 1]) @ [det_count + 1])
         else (det_count, det_events @ [det_count]))
      else
        (if anomDetn ! (i - 1)
         then (det_count, det_events @ [det_count])
         else (det_count, det_events @ [0])))"

definition determine_detections :: "bool list \<Rightarrow> int list" where
  "determine_detections anomDetn =
     snd (foldl (detections_step anomDetn) (0, [0]) [1..<length anomDetn])"

subsection \<open>Errors and positional reads\<close>

text \<open>
  The exceptions the evaluation stages can raise. \<open>LookupError\<close> is Python's common base
  class of \<open>KeyError\<close> and \<open>IndexError\<close>: which of the two pandas raises for a missing
  position depends on the kind of index, so the model does not tell them apart.
\<close>

datatype error = LookupError | ValueError | ZeroDivisionError

definition series_at :: "'a list \<Rightarrow> nat \<Rightarrow> error + 'a" where
  "series_at xs i = (if i < length xs then Inr (xs ! i) else Inl LookupError)"

text \<open>A loop whose body may raise: the first error ends it.\<close>

fun foldl_res :: "('s \<Rightarrow> 'a \<Rightarrow> error + 's) \<Rightarrow> 's \<Rightarrow> 'a list \<Rightarrow> error + 's" where
  "foldl_res f s [] = Inr s"
| "foldl_res f s (x # xs) = (case f s x of Inl e \<Rightarrow> Inl e | Inr s' \<Rightarrow> foldl_res f s' xs)"

subsection \<open>compare_lbl_detns\<close>

text \<open>
  One iteration at index \<open>i\<close> on the state \<open>(detected_anomalies, valid_detections)\<close>. Both
  lists start as \<open>[0]\<close> and only grow, so \<open>[-1]\<close> is \<open>last\<close>. The guard of the outer
  \<open>if\<close> is the detection flag \<open>anomDetn[0][i]\<close>, not the detection event identifier.
\<close>

fun compare_step ::
  "int list \<Rightarrow> bool list \<Rightarrow> int list \<Rightarrow> int list \<times> int list \<Rightarrow> nat \<Rightarrow>
   error + int list \<times> int list" where
  "compare_step anomLbl anomDetn anomDetns (detected_anomalies, valid_detections) i =
     (case series_at anomDetn i of Inl e \<Rightarrow> Inl e | Inr d \<Rightarrow>
        if d then
          (case series_at anomLbl i of Inl e \<Rightarrow> Inl e | Inr l \<Rightarrow>
             if 0 \<noteq> l then
               (case series_at anomDetns i of Inl e \<Rightarrow> Inl e | Inr n \<Rightarrow>
                  Inr (if \<not> (last detected_anomalies = l)
                       then detected_anomalies @ [l] else detected_anomalies,
                       if \<not> (last valid_detections = n)
                       then valid_detections @ [n] else valid_detections))
             else Inr (detected_anomalies, valid_detections))
        else Inr (detected_anomalies, valid_detections))"

definition compare_lbl_detns ::
  "int list \<Rightarrow> bool list \<Rightarrow> int list \<Rightarrow> error + int list \<times> int list \<times> int list" where
  "compare_lbl_detns anomLbl anomDetn anomDetns =
     (case foldl_res (compare_step anomLbl anomDetn anomDetns) ([0], [0])
             [0..<length anomDetn] of
        Inl e \<Rightarrow> Inl e
      | Inr (detected_anomalies, valid_detections) \<Rightarrow>
          Inr (anomDetns, tl detected_anomalies, tl valid_detections))"

subsection \<open>false_detections\<close>

text \<open>Python's \<open>max\<close> of a sequence: \<open>ValueError\<close> on an empty one.\<close>

fun py_max :: "int list \<Rightarrow> error + int" where
  "py_max [] = Inl ValueError"
| "py_max (x # xs) = Inr (fold max xs x)"

text \<open>
  One iteration for the identifier \<open>i\<close> on the state \<open>(invalid_detections, det_ind)\<close>.
  \<open>range(1, m)\<close> is the list \<open>[1..m - 1]\<close> of integers: it leaves \<open>m\<close> out.
\<close>

fun false_step :: "int list \<Rightarrow> int list \<times> nat \<Rightarrow> int \<Rightarrow> int list \<times> nat" where
  "false_step valid_detections (invalid_detections, det_ind) i =
     (if det_ind < length valid_detections then
        (if i = valid_detections ! det_ind
         then (invalid_detections, det_ind + 1)
         else (invalid_detections @ [i], det_ind))
      else (invalid_detections, det_ind))"

definition false_detections :: "int list \<Rightarrow> int list \<Rightarrow> error + int list" where
  "false_detections anomDetns valid_detections =
     (case py_max anomDetns of Inl e \<Rightarrow> Inl e | Inr m \<Rightarrow>
        Inr (fst (foldl (false_step valid_detections) ([], 0) [1..m - 1])))"

subsection \<open>windowing\<close>

text \<open>
  \<open>normal_lbl\<close> is a Series: its index labels paired with its values. The detection frame
  is read through its index: a map from index label to flag (the labels of a frame that
  is reindexed are pairwise distinct, pandas refuses to reindex others).
  \<open>reindex\<close> yields the flag of every label of the new index, or a missing value (NaN);
  the next statement of the source replaces the missing values by \<open>True\<close>.
\<close>

definition reindex :: "('k \<rightharpoonup> bool) \<Rightarrow> 'k list \<Rightarrow> bool option list" where
  "reindex anomDetn index = map anomDetn index"

definition fill_null_True :: "bool option list \<Rightarrow> bool list" where
  "fill_null_True vs = map (\<lambda>v. case v of None \<Rightarrow> True | Some b \<Rightarrow> b) vs"

text \<open>
  \<open>pd.DataFrame(data=xs, index=idx)\<close> raises \<open>ValueError\<close> when the lengths differ; the
  frame is modelled by its column.
\<close>

definition data_frame :: "'a list \<Rightarrow> 'k list \<Rightarrow> error + 'a list" where
  "data_frame xs index = (if length xs = length index then Inr xs else Inl ValueError)"

definition windowing ::
  "'s \<Rightarrow> ('k \<times> bool) list \<Rightarrow> ('k \<rightharpoonup> bool) \<Rightarrow>
   error + int list \<times> bool list \<times> int list \<times> int list \<times> int list" where
  "windowing srs normal_lbl anomDetn =
     (let label_events = determine_events (map snd normal_lbl) in
      case data_frame label_events (map fst normal_lbl) of Inl e \<Rightarrow> Inl e | Inr anomLbl \<Rightarrow>
      let anomDetn' = fill_null_True (reindex anomDetn (map fst normal_lbl));
          det_events = determine_detections anomDetn' in
      case data_frame det_events (map fst normal_lbl) of Inl e \<Rightarrow> Inl e | Inr anomDetns \<Rightarrow>
      case compare_lbl_detns anomLbl anomDetn' anomDetns of Inl e \<Rightarrow> Inl e
      | Inr (anomDetns', detected_anomalies, valid_detections) \<Rightarrow>
      case false_detections anomDetns' valid_detections of Inl e \<Rightarrow> Inl e
      | Inr invalid_detections \<Rightarrow>
          Inr (anomLbl, anomDetn', anomDetns', detected_anomalies, invalid_detections))"

subsection \<open>Numbers of the metric roll-up\<close>

text \<open>
  A count of \<open>metrics\<close> is a Python integer (\<open>len\<close>, and the builtin \<open>sum\<close> over a
  Series) or a numpy integer (\<open>numpy.int64\<close>, the kind pandas hands out when one element
  of a Series is read, as in \<open>value_counts()[0]\<close>), a ratio a Python float or a numpy
  float. The kind decides what a division by zero does: between Python numbers it raises
  \<open>ZeroDivisionError\<close>; as soon as one operand is a numpy number, numpy computes the
  quotient and returns nan or an infinity (with a warning, not an exception).
  A float is modelled by its exact real value, or as an infinity or nan: rounding and the
  sign of zero are not modelled. The numpy integers are counts bounded by the length of
  the series, so their wrap-around at 64 bits is not modelled either.
\<close>

datatype fval = Finite real | PosInf | NegInf | NaN

datatype scalar = PyInt int | NpInt int | PyFloat fval | NpFloat fval

fun is_np :: "scalar \<Rightarrow> bool" where
  "is_np (NpInt i) = True"
| "is_np (NpFloat x) = True"
| "is_np (PyInt i) = False"
| "is_np (PyFloat x) = False"

fun as_int :: "scalar \<Rightarrow> int option" where
  "as_int (PyInt i) = Some i"
| "as_int (NpInt i) = Some i"
| "as_int (PyFloat x) = None"
| "as_int (NpFloat x) = None"

fun as_float :: "scalar \<Rightarrow> fval" where
  "as_float (PyInt i) = Finite (of_int i)"
| "as_float (NpInt i) = Finite (of_int i)"
| "as_float (PyFloat x) = x"
| "as_float (NpFloat x) = x"

fun is_finite :: "scalar \<Rightarrow> bool" where
  "is_finite (PyInt i) = True"
| "is_finite (NpInt i) = True"
| "is_finite (PyFloat x) = (case x of Finite r \<Rightarrow> True | _ \<Rightarrow> False)"
| "is_finite (NpFloat x) = (case x of Finite r \<Rightarrow> True | _ \<Rightarrow> False)"

fun fneg :: "fval \<Rightarrow> fval" where
  "fneg (Finite x) = Finite (- x)"
| "fneg PosInf = NegInf"
| "fneg NegInf = PosInf"
| "fneg NaN = NaN"

fun fadd :: "fval \<Rightarrow> fval \<Rightarrow> fval" where
  "fadd (Finite x) (Finite y) = Finite (x + y)"
| "fadd NaN b = NaN"
| "fadd a NaN = NaN"
| "fadd PosInf NegInf = NaN"
| "fadd NegInf PosInf = NaN"
| "fadd PosInf b = PosInf"
| "fadd NegInf b = NegInf"
| "fadd a PosInf = PosInf"
| "fadd a NegInf = NegInf"

definition fsub :: "fval \<Rightarrow> fval \<Rightarrow> fval" where
  "fsub a b = fadd a (fneg b)"

fun fsgn :: "fval \<Rightarrow> real" where
  "fsgn (Finite x) = sgn x"
| "fsgn PosInf = 1"
| "fsgn NegInf = - 1"
| "fsgn NaN = 0"

fun fmul :: "fval \<Rightarrow> fval \<Rightarrow> fval" where
  "fmul (Finite x) (Finite y) = Finite (x * y)"
| "fmul NaN b = NaN"
| "fmul a NaN = NaN"
| "fmul a b =
     (if fsgn a * fsgn b = 0 then NaN else if 0 < fsgn a * fsgn b then PosInf else NegInf)"

fun fdiv :: "fval \<Rightarrow> fval \<Rightarrow> fval" where
  "fdiv (Finite x) (Finite y) =
     (if y = 0 then (if x = 0 then NaN else if 0 < x then PosInf else NegInf)
      else Finite (x / y))"
| "fdiv NaN b = NaN"
| "fdiv a NaN = NaN"
| "fdiv (Finite x) b = Finite 0"
| "fdiv a (Finite y) = (if y < 0 then fneg a else a)"
| "fdiv a b = NaN"

text \<open>
  \<open>+\<close>, \<open>-\<close> and \<open>*\<close>: integers stay integers, the result is a numpy number when an
  operand is one. They never raise.
\<close>

definition arith ::
  "(int \<Rightarrow> int \<Rightarrow> int) \<Rightarrow> (fval \<Rightarrow> fval \<Rightarrow> fval) \<Rightarrow> scalar \<Rightarrow> scalar \<Rightarrow> scalar" where
  "arith iop fop a b =
     (case (as_int a, as_int b) of
        (Some i, Some j) \<Rightarrow> if is_np a \<or> is_np b then NpInt (iop i j) else PyInt (iop i j)
      | _ \<Rightarrow> if is_np a \<or> is_np b then NpFloat (fop (as_float a) (as_float b))
             else PyFloat (fop (as_float a) (as_float b)))"

definition s_add :: "scalar \<Rightarrow> scalar \<Rightarrow> scalar" where
  "s_add = arith (+) fadd"

definition s_sub :: "scalar \<Rightarrow> scalar \<Rightarrow> scalar" where
  "s_sub = arith (-) fsub"

definition s_mul :: "scalar \<Rightarrow> scalar \<Rightarrow> scalar" where
  "s_mul = arith (*) fmul"

text \<open>The true division \<open>/\<close>.\<close>

definition s_div :: "scalar \<Rightarrow> scalar \<Rightarrow> error + scalar" where
  "s_div a b =
     (if is_np a \<or> is_np b then Inr (NpFloat (fdiv (as_float a) (as_float b)))
      else if as_float b = Finite 0 then Inl ZeroDivisionError
      else Inr (PyFloat (fdiv (as_float a) (as_float b))))"

text \<open>
  The builtin \<open>sum\<close> over a Series of counts: iterating a Series yields Python integers,
  and \<open>sum\<close> adds them to the Python integer 0, so the sum is a Python integer.
\<close>

fun py_sum :: "int list \<Rightarrow> scalar" where
  "py_sum cs = PyInt (sum_list cs)"

subsection \<open>value_counts and its lookups\<close>

text \<open>
  \<open>value_counts()\<close> is a Series of counts indexed by the distinct values of the column.
  Reading it at a value that does not occur raises \<open>KeyError\<close>; so does reading it at a
  list of values one of which does not occur (pandas from 1.0 on). A list of values
  yields their counts in the order of the list, repeated values included.
\<close>

definition value_counts :: "int list \<Rightarrow> int \<rightharpoonup> int" where
  "value_counts xs = (\<lambda>v. if v \<in> set xs then Some (int (count_list xs v)) else None)"

definition vc_at :: "(int \<rightharpoonup> int) \<Rightarrow> int \<Rightarrow> error + int" where
  "vc_at vc v = (case vc v of None \<Rightarrow> Inl LookupError | Some c \<Rightarrow> Inr c)"

fun vc_take :: "(int \<rightharpoonup> int) \<Rightarrow> int list \<Rightarrow> error + int list" where
  "vc_take vc [] = Inr []"
| "vc_take vc (v # vs) =
     (case vc v of None \<Rightarrow> Inl LookupError
      | Some c \<Rightarrow> (case vc_take vc vs of Inl e \<Rightarrow> Inl e | Inr cs \<Rightarrow> Inr (c # cs)))"

subsection \<open>metrics\<close>

record confusion_counts =
  TruePositives :: scalar
  FalseNegatives :: scalar
  FalsePositives :: scalar
  TrueNegatives :: scalar

record metric_report = confusion_counts +
  PRC :: scalar
  PPV :: scalar
  NPV :: scalar
  ACC :: scalar
  RCL :: scalar
  f1 :: scalar
  f2 :: scalar

text \<open>
  The first four statements of \<open>metrics\<close>: the confusion counts. \<open>len(anomDetn)\<close> is a
  Python integer.
\<close>

definition metrics_counts ::
  "int list \<Rightarrow> bool list \<Rightarrow> int list \<Rightarrow> int list \<Rightarrow> int list \<Rightarrow> error + confusion_counts" where
  "metrics_counts anomDetns anomDetn anomLbl detected_anomalies invalid_detections =
     (case vc_take (value_counts anomLbl) detected_anomalies of Inl e \<Rightarrow> Inl e | Inr cs \<Rightarrow>
      let TP = py_sum cs in
      case vc_at (value_counts anomLbl) 0 of Inl e \<Rightarrow> Inl e | Inr c0 \<Rightarrow>
      let FN = s_sub (s_sub (PyInt (int (length anomDetn))) (NpInt c0)) TP in
      case vc_take (value_counts anomDetns) invalid_detections of Inl e \<Rightarrow> Inl e | Inr ds \<Rightarrow>
      let FP = py_sum ds;
          TN = s_sub (s_sub (s_sub (PyInt (int (length anomDetn))) TP) FN) FP
      in Inr \<lparr>TruePositives = TP, FalseNegatives = FN, FalsePositives = FP,
               TrueNegatives = TN\<rparr>)"

text \<open>The whole of \<open>metrics\<close>: the counts, then the ratios in the order of the source.\<close>

definition metrics ::
  "int list \<Rightarrow> bool list \<Rightarrow> int list \<Rightarrow> int list \<Rightarrow> int list \<Rightarrow> error + metric_report" where
  "metrics anomDetns anomDetn anomLbl detected_anomalies invalid_detections =
     (case metrics_counts anomDetns anomDetn anomLbl detected_anomalies invalid_detections of
        Inl e \<Rightarrow> Inl e
      | Inr c \<Rightarrow>
      let TP = TruePositives c; FN = FalseNegatives c;
          FP = FalsePositives c; TN = TrueNegatives c in
      case s_div TP (s_add TP FP) of Inl e \<Rightarrow> Inl e | Inr prc \<Rightarrow>
      case s_div TN (s_add TN FN) of Inl e \<Rightarrow> Inl e | Inr npv \<Rightarrow>
      case s_div (s_add TP TN) (PyInt (int (length anomDetn))) of Inl e \<Rightarrow> Inl e | Inr acc \<Rightarrow>
      case s_div TP (s_add TP FN) of Inl e \<Rightarrow> Inl e | Inr rcl \<Rightarrow>
      case s_div (s_mul (PyFloat (Finite 2)) (s_mul prc rcl)) (s_add prc rcl) of
        Inl e \<Rightarrow> Inl e | Inr f1' \<Rightarrow>
      case s_div (s_mul (PyFloat (Finite 5)) TP)
             (s_add (s_add (s_mul (PyFloat (Finite 5)) TP) (s_mul (PyFloat (Finite 4)) FN)) FP) of
        Inl e \<Rightarrow> Inl e | Inr f2' \<Rightarrow>
      Inr \<lparr>TruePositives = TP, FalseNegatives = FN, FalsePositives = FP, TrueNegatives = TN,
           PRC = prc, PPV = prc, NPV = npv, ACC = acc, RCL = rcl, f1 = f1', f2 = f2'\<rparr>)"

subsection \<open>The overlaps the matcher reads\<close>

text \<open>
  The pairs (label event identifier, detection event identifier) at the positions below
  \<open>k\<close> where the detection flag is set and the label event identifier is not 0, in the
  order of the positions.
\<close>

definition overlaps :: "int list \<Rightarrow> bool list \<Rightarrow> int list \<Rightarrow> nat \<Rightarrow> (int \<times> int) list" where
  "overlaps anomLbl anomDetn anomDetns k =
     map (\<lambda>i. (anomLbl ! i, anomDetns ! i))
       (filter (\<lambda>i. anomDetn ! i \<and> 0 \<noteq> anomLbl ! i) [0..<k])"

subsection \<open>Closed form of the segmentation\<close>

text \<open>
  \<open>run_starts flags j\<close> counts the positions \<open>m\<close> with \<open>1 \<le> m \<le> j\<close> at which a run of
  flagged points begins (\<open>flags ! m\<close> holds and \<open>flags ! (m - 1)\<close> does not): the value of the
  running counter after iteration \<open>j\<close>.
\<close>

fun run_starts :: "bool list \<Rightarrow> nat \<Rightarrow> int" where
  "run_starts flags 0 = 0"
| "run_starts flags (Suc j) =
     run_starts flags j + (if flags ! Suc j \<and> \<not> flags ! j then 1 else 0)"

text \<open>
  The identifier position \<open>j\<close> carries once the loop has run up to (excluding) index \<open>k\<close>.
\<close>

definition seg_value :: "bool list \<Rightarrow> nat \<Rightarrow> nat \<Rightarrow> int" where
  "seg_value flags k j =
     (if Suc j < k \<and> flags ! Suc j \<and> \<not> flags ! j then run_starts flags (Suc j)
      else if j = 0 then 0
      else if flags ! j \<or> flags ! (j - 1) then run_starts flags j
      else 0)"


section \<open>Properties\<close>

lemma detections_loop:
  "1 \<le> k \<Longrightarrow>
   foldl (detections_step flags) (0, [0]) [1..<k] =
     (run_starts flags (k - 1), map (seg_value flags k) [0..<k])"
proof (induction k)
  case 0
  then show ?case by simp
next
  case (Suc k)
  show ?case
  proof (cases "k = 0")
    case True
    then show ?thesis by (simp add: seg_value_def)
  next
    case False
    then have k1: "1 \<le> k" by simp
    then obtain k' where k': "k = Suc k'" by (cases k) auto
    have upt: "[1..<Suc k] = [1..<k] @ [k]" using k1 by simp
    have IH: "foldl (detections_step flags) (0, [0]) [1..<k] =
      (run_starts flags (k - 1), map (seg_value flags k) [0..<k])"
      using Suc.IH k1 by simp
    have "foldl (detections_step flags) (0, [0]) [1..<Suc k] =
      detections_step flags (run_starts flags (k - 1), map (seg_value flags k) [0..<k]) k"
      by (simp only: upt foldl_append IH foldl.simps)
    also have "\<dots> = (run_starts flags k, map (seg_value flags (Suc k)) [0..<Suc k])"
    proof -
      have len: "length (map (seg_value flags k) [0..<k]) = k" by simp
      have cnt: "run_starts flags k =
        run_starts flags k' + (if flags ! k \<and> \<not> flags ! k' then 1 else 0)"
        by (simp add: k')
      show ?thesis
        apply (simp add: k' del: upt_Suc run_starts.simps(2))
        apply (intro conjI impI)
        apply (auto simp add: list_eq_iff_nth_eq nth_append nth_list_update seg_value_def less_Suc_eq
            simp del: upt_Suc)
        done
    qed
    finally show ?thesis by simp
  qed
qed


subsection \<open>The two segmenters agree\<close>

lemma events_step_eq:
  "0 < i \<Longrightarrow> i < length lbl \<Longrightarrow> events_step lbl st i = detections_step (map Not lbl) st i"
  by (cases st) simp

lemma foldl_cong_set:
  "(\<And>s x. x \<in> set xs \<Longrightarrow> f s x = g s x) \<Longrightarrow> foldl f s xs = foldl g s xs"
  by (induction xs arbitrary: s) auto

lemma determine_events_eq:
  "determine_events normal_lbl = determine_detections (map Not normal_lbl)"
proof -
  have "foldl (events_step normal_lbl) (0, [0]) [1..<length normal_lbl] =
        foldl (detections_step (map Not normal_lbl)) (0, [0]) [1..<length normal_lbl]"
    by (rule foldl_cong_set) (simp add: events_step_eq)
  then show ?thesis
    by (simp add: determine_events_def determine_detections_def)
qed

lemma determine_events_map_Not:
  "determine_events (map Not flags) = determine_detections flags"
  by (simp add: determine_events_eq comp_def)

lemma determine_detections_closed:
  "flags \<noteq> [] \<Longrightarrow>
   determine_detections flags = map (seg_value flags (length flags)) [0..<length flags]"
  unfolding determine_detections_def
  using detections_loop [of "length flags" flags] by (simp add: Suc_leI)

lemma determine_detections_Nil: "determine_detections [] = [0]"
  by (simp add: determine_detections_def)

lemma length_determine_detections:
  "flags \<noteq> [] \<Longrightarrow> length (determine_detections flags) = length flags"
  by (simp add: determine_detections_closed)

lemma determine_detections_nth:
  "i < length flags \<Longrightarrow> determine_detections flags ! i = seg_value flags (length flags) i"
  by (cases "flags = []") (simp_all add: determine_detections_closed)

lemma run_starts_all_True: "j < n \<Longrightarrow> run_starts (replicate n True) j = 0"
  by (induction j) simp_all

lemma seg_value_all_True: "j < m \<Longrightarrow> seg_value (replicate m True) m j = 0"
  by (auto simp add: seg_value_def run_starts_all_True)

lemma seg_value_all_False: "j < m \<Longrightarrow> seg_value (replicate m False) m j = 0"
  by (auto simp add: seg_value_def)

lemma determine_detections_all_False:
  "determine_detections (replicate (Suc n) False) = replicate (Suc n) 0"
  by (simp add: determine_detections_closed list_eq_iff_nth_eq seg_value_all_False
      del: upt_Suc replicate_Suc)

lemma determine_detections_all_True:
  "determine_detections (replicate (Suc n) True) = replicate (Suc n) 0"
  by (simp add: determine_detections_closed list_eq_iff_nth_eq seg_value_all_True
      del: upt_Suc replicate_Suc)

subsection \<open>The matcher in closed form\<close>

lemma foldl_res_append:
  "foldl_res f s (xs @ ys) =
     (case foldl_res f s xs of Inl e \<Rightarrow> Inl e | Inr s' \<Rightarrow> foldl_res f s' ys)"
  by (induction xs arbitrary: s) (auto split: sum.splits)

lemma remdups_adj_snoc:
  "xs \<noteq> [] \<Longrightarrow>
   remdups_adj (xs @ [x]) = (if last xs = x then remdups_adj xs else remdups_adj xs @ [x])"
proof (induction xs rule: rev_induct)
  case Nil
  then show ?case by simp
next
  case (snoc y ys)
  show ?case by (simp add: remdups_adj_append_two)
qed

lemma compare_loop:
  "k \<le> length anomDetn \<Longrightarrow> k \<le> length anomLbl \<Longrightarrow> k \<le> length anomDetns \<Longrightarrow>
   foldl_res (compare_step anomLbl anomDetn anomDetns) ([0], [0]) [0..<k] =
     Inr (remdups_adj (0 # map fst (overlaps anomLbl anomDetn anomDetns k)),
          remdups_adj (0 # map snd (overlaps anomLbl anomDetn anomDetns k)))"
proof (induction k)
  case 0
  then show ?case by (simp add: overlaps_def)
next
  case (Suc k)
  then have IH: "foldl_res (compare_step anomLbl anomDetn anomDetns) ([0], [0]) [0..<k] =
     Inr (remdups_adj (0 # map fst (overlaps anomLbl anomDetn anomDetns k)),
          remdups_adj (0 # map snd (overlaps anomLbl anomDetn anomDetns k)))"
    by simp
  have lt: "k < length anomDetn" "k < length anomLbl" "k < length anomDetns"
    using Suc.prems by simp_all
  have snoc: "remdups_adj (0 # xs @ [x]) =
    (if last (0 # xs) = x then remdups_adj (0 # xs) else remdups_adj (0 # xs) @ [x])"
    for x :: int and xs
    using remdups_adj_snoc [of "0 # xs" x, OF list.distinct(2)] by (simp only: append_Cons)
  show ?case
    using lt
    by (simp add: foldl_res_append IH series_at_def overlaps_def snoc del: remdups_adj.simps)
qed

lemma compare_lbl_detns_closed:
  "length anomLbl = length anomDetn \<Longrightarrow> length anomDetns = length anomDetn \<Longrightarrow>
   compare_lbl_detns anomLbl anomDetn anomDetns =
     Inr (anomDetns,
          tl (remdups_adj (0 # map fst (overlaps anomLbl anomDetn anomDetns (length anomDetn)))),
          tl (remdups_adj (0 # map snd (overlaps anomLbl anomDetn anomDetns (length anomDetn)))))"
  by (simp add: compare_lbl_detns_def compare_loop del: remdups_adj.simps)

lemma sorted_distinct_remdups_adj: "sorted xs \<Longrightarrow> distinct (remdups_adj xs)"
  by (induction xs rule: remdups_adj.induct) auto

lemma py_max_eq: "xs \<noteq> [] \<Longrightarrow> py_max xs = Inr (Max (set xs))"
proof (cases xs)
  case Nil
  assume "xs \<noteq> []"
  with Nil show ?thesis by simp
next
  case (Cons a list)
  then show ?thesis using Max.set_eq_fold [of a list] by simp
qed

subsection \<open>Identifiers of a segmented series\<close>

lemma run_starts_nonneg: "0 \<le> run_starts flags j"
  by (induction j) simp_all

lemma run_starts_mono: "i \<le> j \<Longrightarrow> run_starts flags i \<le> run_starts flags j"
proof (induction j)
  case 0
  then show ?case by simp
next
  case (Suc j)
  then show ?case by (cases "i = Suc j") (auto simp add: le_Suc_eq)
qed

lemma seg_value_cases:
  "seg_value flags n j = 0 \<or> seg_value flags n j = run_starts flags j \<or>
   (Suc j < n \<and> seg_value flags n j = run_starts flags (Suc j))"
  by (auto simp add: seg_value_def)

lemma seg_value_nonneg: "0 \<le> seg_value flags n j"
  using seg_value_cases [of flags n j] run_starts_nonneg [of flags j]
    run_starts_nonneg [of flags "Suc j"] by auto

lemma seg_value_flagged: "flags ! j \<Longrightarrow> seg_value flags n j = run_starts flags j"
  by (cases j) (simp_all add: seg_value_def)

lemma seg_value_upper: "seg_value flags n j \<le> run_starts flags (Suc j)"
  using seg_value_cases [of flags n j] run_starts_nonneg [of flags "Suc j"]
    run_starts_mono [of j "Suc j" flags] by auto

lemma seg_value_lower: "seg_value flags n j \<noteq> 0 \<Longrightarrow> run_starts flags j \<le> seg_value flags n j"
  using seg_value_cases [of flags n j] run_starts_mono [of j "Suc j" flags] by auto

lemma seg_value_sorted_nonzero:
  assumes "i < j" "seg_value flags n j \<noteq> 0"
  shows "seg_value flags n i \<le> seg_value flags n j"
proof -
  have "seg_value flags n i \<le> run_starts flags (Suc i)" by (rule seg_value_upper)
  also have "\<dots> \<le> run_starts flags j" by (rule run_starts_mono) (use assms(1) in simp)
  also have "\<dots> \<le> seg_value flags n j" using assms(2) by (rule seg_value_lower)
  finally show ?thesis .
qed

lemma seg_value_le_last: "j < n \<Longrightarrow> seg_value flags n j \<le> run_starts flags (n - 1)"
proof -
  assume "j < n"
  then have "j \<le> n - 1" by simp
  then have 1: "run_starts flags j \<le> run_starts flags (n - 1)" by (rule run_starts_mono)
  have 2: "Suc j < n \<Longrightarrow> run_starts flags (Suc j) \<le> run_starts flags (n - 1)"
    by (rule run_starts_mono) simp
  show ?thesis
    using seg_value_cases [of flags n j] 1 2 run_starts_nonneg [of flags "n - 1"] by auto
qed

lemma run_starts_attained:
  "1 \<le> k \<Longrightarrow> k \<le> run_starts flags j \<Longrightarrow>
   \<exists>i. 1 \<le> i \<and> i \<le> j \<and> flags ! i \<and> \<not> flags ! (i - 1) \<and> run_starts flags i = k"
proof (induction j)
  case 0
  then show ?case by simp
next
  case (Suc j)
  show ?case
  proof (cases "k \<le> run_starts flags j")
    case True
    with Suc obtain i where "1 \<le> i" "i \<le> j" "flags ! i" "\<not> flags ! (i - 1)"
      "run_starts flags i = k" by blast
    then show ?thesis by (intro exI [of _ i]) simp
  next
    case False
    with Suc.prems have rise: "flags ! Suc j" "\<not> flags ! j"
      by (auto split: if_splits)
    with False Suc.prems have "run_starts flags (Suc j) = k" by simp
    with rise show ?thesis by (intro exI [of _ "Suc j"]) simp
  qed
qed

lemma sorted_map_filter_upt:
  assumes "\<And>i j. i < j \<Longrightarrow> j < n \<Longrightarrow> P i \<Longrightarrow> P j \<Longrightarrow> f i \<le> (f j :: int)"
  shows "sorted (map f (filter P [0..<n]))"
proof -
  have "sorted_wrt (<) (filter P [0..<n])"
    by (rule sorted_wrt_filter) simp
  then have "sorted_wrt (\<lambda>i j. f i \<le> f j) (filter P [0..<n])"
    by (rule sorted_wrt_mono_rel [rotated]) (use assms in auto)
  then show ?thesis by (simp add: sorted_wrt_map)
qed

lemma detections_values:
  assumes "flags \<noteq> []"
  shows "set (determine_detections flags) \<subseteq> {0..run_starts flags (length flags - 1)}"
proof
  fix x assume "x \<in> set (determine_detections flags)"
  then obtain j where "j < length flags" "x = seg_value flags (length flags) j"
    using assms by (auto simp add: determine_detections_closed)
  then show "x \<in> {0..run_starts flags (length flags - 1)}"
    using seg_value_nonneg [of flags "length flags" j] seg_value_le_last [of j "length flags" flags]
    by simp
qed

lemma detections_ids_present:
  assumes "1 \<le> k" "k \<le> run_starts flags (length flags - 1)"
  shows "\<exists>i. 1 \<le> i \<and> i < length flags \<and> flags ! i \<and> determine_detections flags ! i = k"
proof -
  have ne: "flags \<noteq> []" using assms by (cases flags) auto
  from run_starts_attained [OF assms] obtain i where i: "1 \<le> i" "i \<le> length flags - 1"
    "flags ! i" "run_starts flags i = k" by blast
  then have "i < length flags" using ne by (cases flags) auto
  then show ?thesis using i by (auto simp add: determine_detections_nth seg_value_flagged)
qed

lemma Max_determine_detections:
  assumes "flags \<noteq> []"
  shows "Max (set (determine_detections flags)) = run_starts flags (length flags - 1)"
proof (rule Max_eqI)
  show "finite (set (determine_detections flags))" by simp
  show "y \<le> run_starts flags (length flags - 1)" if "y \<in> set (determine_detections flags)" for y
    using that detections_values [OF assms] by auto
  show "run_starts flags (length flags - 1) \<in> set (determine_detections flags)"
  proof (cases "run_starts flags (length flags - 1) = 0")
    case True
    have "determine_detections flags ! 0 \<in> set (determine_detections flags)"
      using assms by (intro nth_mem) (simp add: length_determine_detections)
    moreover have "determine_detections flags ! 0 = 0 \<or> 1 \<le> determine_detections flags ! 0"
      using seg_value_nonneg [of flags "length flags" 0] assms
      by (auto simp add: determine_detections_nth)
    moreover have "determine_detections flags ! 0 \<le> 0"
      using True seg_value_le_last [of 0 "length flags" flags] assms
      by (simp add: determine_detections_nth)
    ultimately show ?thesis using True by auto
  next
    case False
    then have "1 \<le> run_starts flags (length flags - 1)"
      using run_starts_nonneg [of flags "length flags - 1"] by simp
    from detections_ids_present [OF this order_refl]
    obtain i where "i < length flags"
      "determine_detections flags ! i = run_starts flags (length flags - 1)" by blast
    then show ?thesis
      using nth_mem [of i "determine_detections flags"] assms
      by (simp add: length_determine_detections)
  qed
qed

subsection \<open>windowing and the counts of metrics in closed form\<close>

lemma length_determine_events:
  "normal_lbl \<noteq> [] \<Longrightarrow> length (determine_events normal_lbl) = length normal_lbl"
  by (simp add: determine_events_eq length_determine_detections)

lemma length_aligned [simp]: "length (fill_null_True (reindex anomDetn index)) = length index"
  by (simp add: fill_null_True_def reindex_def)

lemma windowing_closed:
  assumes "normal_lbl \<noteq> []"
  shows "windowing srs normal_lbl anomDetn =
   (let anomLbl = determine_events (map snd normal_lbl);
        anomDetn' = fill_null_True (reindex anomDetn (map fst normal_lbl));
        anomDetns = determine_detections anomDetn';
        ov = overlaps anomLbl anomDetn' anomDetns (length normal_lbl)
    in Inr (anomLbl, anomDetn', anomDetns, tl (remdups_adj (0 # map fst ov)),
            fst (foldl (false_step (tl (remdups_adj (0 # map snd ov)))) ([], 0)
                   [1..Max (set anomDetns) - 1])))"
proof -
  let ?lbl = "determine_events (map snd normal_lbl)"
  let ?df = "fill_null_True (reindex anomDetn (map fst normal_lbl))"
  let ?dets = "determine_detections ?df"
  have l1: "length ?lbl = length normal_lbl"
    using assms by (simp add: length_determine_events)
  have ne: "?df \<noteq> []" using assms by (simp add: fill_null_True_def reindex_def)
  then have l2: "length ?dets = length normal_lbl"
    by (simp add: length_determine_detections)
  have ne2: "?dets \<noteq> []" using l2 assms by auto
  have cmp: "compare_lbl_detns ?lbl ?df ?dets =
     Inr (?dets,
          tl (remdups_adj (0 # map fst (overlaps ?lbl ?df ?dets (length normal_lbl)))),
          tl (remdups_adj (0 # map snd (overlaps ?lbl ?df ?dets (length normal_lbl)))))"
    using compare_lbl_detns_closed [of ?lbl ?df ?dets] l1 l2 by simp
  show ?thesis
    unfolding windowing_def Let_def data_frame_def
    by (simp add: l1 l2 cmp false_detections_def py_max_eq [OF ne2] del: remdups_adj.simps)
qed

lemma dedup_sorted:
  assumes "sorted (0 # xs)"
  shows "distinct (tl (remdups_adj (0 # xs))) \<and> sorted (tl (remdups_adj (0 # xs))) \<and>
         set (tl (remdups_adj (0 # xs))) = set xs - {0::int}"
proof -
  let ?r = "remdups_adj (0 # xs)"
  have r: "?r = 0 # tl ?r" by simp
  have d: "distinct ?r" using assms by (rule sorted_distinct_remdups_adj)
  have s: "sorted ?r" using assms by (rule sorted_remdups_adj)
  have st: "set ?r = insert 0 (set xs)" by (simp del: remdups_adj.simps)
  from d r have d': "distinct (0 # tl ?r)" by simp
  from s r have s': "sorted (0 # tl ?r)" by simp
  from st r have st': "insert 0 (set (tl ?r)) = insert 0 (set xs)"
    by (metis list.simps(15))
  from d' have nz: "0 \<notin> set (tl ?r)" and dt: "distinct (tl ?r)"
    by (simp_all only: distinct.simps not_False_eq_True)
  from s' have so: "sorted (tl ?r)" by (simp only: sorted_simps)
  have mem: "x \<in> insert 0 (set (tl ?r)) \<longleftrightarrow> x \<in> insert 0 (set xs)" for x
    by (simp only: st')
  have "set (tl ?r) = set xs - {0}"
  proof (rule set_eqI)
    fix x show "x \<in> set (tl ?r) \<longleftrightarrow> x \<in> set xs - {0}"
      using mem [of x] nz by (cases "x = 0") (simp_all del: remdups_adj.simps)
  qed
  with dt so show ?thesis by (intro conjI)
qed

lemma vc_take_Inr:
  "set ks \<subseteq> set xs \<Longrightarrow>
   vc_take (value_counts xs) ks = Inr (map (\<lambda>k. int (count_list xs k)) ks)"
  by (induction ks) (simp_all add: value_counts_def)

lemma vc_take_Inl:
  "\<not> set ks \<subseteq> set xs \<Longrightarrow> vc_take (value_counts xs) ks = Inl LookupError"
  by (induction ks) (auto simp add: value_counts_def split: sum.splits)

lemma vc_at_zero:
  "vc_at (value_counts xs) 0 = (if 0 \<in> set xs then Inr (int (count_list xs 0)) else Inl LookupError)"
  by (simp add: vc_at_def value_counts_def)

lemma sum_counts_distinct:
  "distinct ks \<Longrightarrow>
   sum_list (map (\<lambda>k. int (count_list xs k)) ks) = int (length (filter (\<lambda>x. x \<in> set ks) xs))"
proof (induction xs)
  case Nil
  then show ?case by simp
next
  case (Cons x xs)
  have "sum_list (map (\<lambda>k. int (count_list (x # xs) k)) ks) =
        sum_list (map (\<lambda>k. int (count_list xs k)) ks) + sum_list (map (\<lambda>k. if x = k then 1 else 0) ks)"
    by (induction ks) auto
  moreover have "sum_list (map (\<lambda>k. if x = k then 1 else 0) ks) = (if x \<in> set ks then 1 else (0::int))"
    using Cons.prems by (induction ks) auto
  ultimately show ?case using Cons by simp
qed

lemma s_sub_py_sum: "s_sub (NpInt a) (py_sum cs) = NpInt (a - sum_list cs)"
  by (simp add: s_sub_def arith_def)

lemma as_int_py_sum: "as_int (py_sum cs) = Some (sum_list cs)"
  by simp

lemma metrics_counts_closed:
  "metrics_counts anomDetns anomDetn anomLbl detected_anomalies invalid_detections =
     (if set detected_anomalies \<subseteq> set anomLbl \<and> 0 \<in> set anomLbl \<and>
         set invalid_detections \<subseteq> set anomDetns
      then Inr \<lparr>TruePositives = py_sum (map (\<lambda>k. int (count_list anomLbl k)) detected_anomalies),
        FalseNegatives = NpInt (int (length anomDetn) - int (count_list anomLbl 0) -
           sum_list (map (\<lambda>k. int (count_list anomLbl k)) detected_anomalies)),
        FalsePositives = py_sum (map (\<lambda>k. int (count_list anomDetns k)) invalid_detections),
        TrueNegatives = NpInt (int (count_list anomLbl 0) -
           sum_list (map (\<lambda>k. int (count_list anomDetns k)) invalid_detections))\<rparr>
      else Inl LookupError)"
proof (cases "set detected_anomalies \<subseteq> set anomLbl")
  case False
  then show ?thesis by (simp add: metrics_counts_def vc_take_Inl)
next
  case da: True
  show ?thesis
  proof (cases "0 \<in> set anomLbl")
    case False
    then show ?thesis by (simp add: metrics_counts_def vc_take_Inr da vc_at_zero)
  next
    case z: True
    show ?thesis
    proof (cases "set invalid_detections \<subseteq> set anomDetns")
      case False
      then show ?thesis by (simp add: metrics_counts_def vc_take_Inr da vc_at_zero z vc_take_Inl)
    next
      case True
      have 1: "s_sub (PyInt n) (NpInt c) = NpInt (n - c)" for n c
        by (simp add: s_sub_def arith_def)
      have 2: "s_sub (PyInt n) (PyInt m) = PyInt (n - m)" for n m
        by (simp add: s_sub_def arith_def)
      have 3: "s_sub (NpInt n) (PyInt m) = NpInt (n - m)" for n m
        by (simp add: s_sub_def arith_def)
      have 4: "s_sub (NpInt n) (NpInt m) = NpInt (n - m)" for n m
        by (simp add: s_sub_def arith_def)
      show ?thesis
        using True
        by (simp add: metrics_counts_def vc_take_Inr da vc_at_zero z Let_def 1 2 3 4)
    qed
  qed
qed

subsection \<open>The matcher on segmented series\<close>

lemma map_fst_overlaps:
  "map fst (overlaps anomLbl anomDetn anomDetns k) =
   map (\<lambda>i. anomLbl ! i) (filter (\<lambda>i. anomDetn ! i \<and> 0 \<noteq> anomLbl ! i) [0..<k])"
  by (simp add: overlaps_def comp_def)

lemma map_snd_overlaps:
  "map snd (overlaps anomLbl anomDetn anomDetns k) =
   map (\<lambda>i. anomDetns ! i) (filter (\<lambda>i. anomDetn ! i \<and> 0 \<noteq> anomLbl ! i) [0..<k])"
  by (simp add: overlaps_def comp_def)

lemma overlaps_fst_sorted:
  assumes "n \<le> length lf"
  shows "sorted (0 # map fst (overlaps (determine_detections lf) df dets n))"
proof -
  let ?lbl = "determine_detections lf"
  have nth: "?lbl ! i = seg_value lf (length lf) i" if "i < n" for i
    using that assms by (simp add: determine_detections_nth)
  have "sorted (map (\<lambda>i. ?lbl ! i) (filter (\<lambda>i. df ! i \<and> 0 \<noteq> ?lbl ! i) [0..<n]))"
  proof (rule sorted_map_filter_upt)
    fix i j assume "i < j" "j < n" "df ! j \<and> 0 \<noteq> ?lbl ! j"
    then show "?lbl ! i \<le> ?lbl ! j"
      using seg_value_sorted_nonzero [of i j lf "length lf"] by (simp add: nth)
  qed
  moreover have "0 \<le> x" if "x \<in> set (map fst (overlaps ?lbl df dets n))" for x
    using that by (auto simp add: map_fst_overlaps nth seg_value_nonneg)
  ultimately show ?thesis by (simp add: map_fst_overlaps)
qed

lemma overlaps_snd_sorted:
  assumes "n \<le> length df"
  shows "sorted (0 # map snd (overlaps lbl df (determine_detections df) n))"
proof -
  let ?dets = "determine_detections df"
  have nth: "?dets ! i = run_starts df i" if "i < n" "df ! i" for i
    using that assms by (simp add: determine_detections_nth seg_value_flagged)
  have "sorted (map (\<lambda>i. ?dets ! i) (filter (\<lambda>i. df ! i \<and> 0 \<noteq> lbl ! i) [0..<n]))"
  proof (rule sorted_map_filter_upt)
    fix i j assume "i < j" "j < n" "df ! i \<and> 0 \<noteq> lbl ! i" "df ! j \<and> 0 \<noteq> lbl ! j"
    then show "?dets ! i \<le> ?dets ! j"
      using run_starts_mono [of i j df] by (simp add: nth)
  qed
  moreover have "0 \<le> x" if "x \<in> set (map snd (overlaps lbl df ?dets n))" for x
    using that by (auto simp add: map_snd_overlaps nth run_starts_nonneg)
  ultimately show ?thesis by (simp add: map_snd_overlaps)
qed

lemma windowing_Nil: "windowing srs [] anomDetn = Inl ValueError"
  by (simp add: windowing_def data_frame_def determine_events_def)

lemma windowing_InrD:
  assumes "windowing srs normal_lbl anomDetn =
    Inr (anomLbl, anomDetn', anomDetns, detected_anomalies, invalid_detections)"
  shows "normal_lbl \<noteq> []"
    and "anomLbl = determine_events (map snd normal_lbl)"
    and "anomDetn' = fill_null_True (reindex anomDetn (map fst normal_lbl))"
    and "anomDetns = determine_detections anomDetn'"
    and "detected_anomalies =
          tl (remdups_adj (0 # map fst (overlaps anomLbl anomDetn' anomDetns (length normal_lbl))))"
    and "invalid_detections =
          fst (foldl (false_step (tl (remdups_adj (0 # map snd
                 (overlaps anomLbl anomDetn' anomDetns (length normal_lbl))))))
                ([], 0) [1..Max (set anomDetns) - 1])"
    and "length anomLbl = length normal_lbl"
    and "length anomDetn' = length normal_lbl"
    and "length anomDetns = length normal_lbl"
proof -
  show ne: "normal_lbl \<noteq> []" using assms by (auto simp add: windowing_Nil)
  let ?A = "determine_events (map snd normal_lbl)"
  let ?B = "fill_null_True (reindex anomDetn (map fst normal_lbl))"
  let ?C = "determine_detections ?B"
  let ?ov = "overlaps ?A ?B ?C (length normal_lbl)"
  let ?D = "tl (remdups_adj (0 # map fst ?ov))"
  let ?E = "fst (foldl (false_step (tl (remdups_adj (0 # map snd ?ov)))) ([], 0)
                 [1..Max (set ?C) - 1])"
  have eq: "Inr (?A, ?B, ?C, ?D, ?E) =
    (Inr (anomLbl, anomDetn', anomDetns, detected_anomalies, invalid_detections)
      :: error + int list \<times> bool list \<times> int list \<times> int list \<times> int list)"
    using assms unfolding windowing_closed [OF ne] Let_def .
  note e0 = eq [unfolded sum.inject prod.inject]
  have e1: "anomLbl = ?A" using e0 by (elim conjE) (rule sym)
  have e2: "anomDetn' = ?B" using e0 by (elim conjE) (rule sym)
  have e3: "anomDetns = ?C" using e0 by (elim conjE) (rule sym)
  have e4: "detected_anomalies = ?D" using e0 by (elim conjE) (rule sym)
  have e5: "invalid_detections = ?E" using e0 by (elim conjE) (rule sym)
  note e = e1 e2 e3 e4 e5
  show "anomLbl = determine_events (map snd normal_lbl)" by (rule e(1))
  show "anomDetn' = fill_null_True (reindex anomDetn (map fst normal_lbl))" by (rule e(2))
  show "anomDetns = determine_detections anomDetn'" by (simp only: e(2) e(3))
  show "detected_anomalies =
          tl (remdups_adj (0 # map fst (overlaps anomLbl anomDetn' anomDetns (length normal_lbl))))"
    by (simp only: e(1) e(2) e(3) e(4))
  show "invalid_detections =
          fst (foldl (false_step (tl (remdups_adj (0 # map snd
                 (overlaps anomLbl anomDetn' anomDetns (length normal_lbl))))))
                ([], 0) [1..Max (set anomDetns) - 1])"
    by (simp only: e(1) e(2) e(3) e(5))
  show "length anomLbl = length normal_lbl"
    using ne by (simp add: e(1) length_determine_events)
  show "length anomDetn' = length normal_lbl" by (simp add: e(2))
  show "length anomDetns = length normal_lbl"
    using ne by (simp add: e(2) e(3) length_determine_detections fill_null_True_def reindex_def)
qed

lemma windowing_detected_distinct:
  assumes "windowing srs normal_lbl anomDetn =
    Inr (anomLbl, anomDetn', anomDetns, detected_anomalies, invalid_detections)"
  shows "distinct detected_anomalies \<and> 0 \<notin> set detected_anomalies \<and>
         set detected_anomalies \<subseteq> set anomLbl"
proof -
  note d = windowing_InrD [OF assms]
  let ?n = "length normal_lbl"
  let ?L = "map fst (overlaps anomLbl anomDetn' anomDetns ?n)"
  have "sorted (0 # ?L)"
    unfolding d(2) determine_events_eq by (rule overlaps_fst_sorted) simp
  from dedup_sorted [OF this] have "distinct detected_anomalies"
    "set detected_anomalies = set ?L - {0}"
    unfolding d(5) [symmetric] by simp_all
  moreover have "set ?L \<subseteq> set anomLbl"
    using d(7) by (auto simp add: map_fst_overlaps)
  ultimately show ?thesis by auto
qed

subsection \<open>Counts on the output of windowing\<close>

lemma length_filter_disjoint:
  "(\<And>x. P x \<Longrightarrow> \<not> Q x) \<Longrightarrow> length (filter P xs) + length (filter Q xs) \<le> length xs"
  by (induction xs) auto

lemma sum_counts_nonneg: "0 \<le> sum_list (map (\<lambda>k. int (count_list xs k)) ks)"
  by (induction ks) simp_all

lemma metrics_counts_InrD:
  assumes "metrics_counts anomDetns anomDetn anomLbl detected_anomalies invalid_detections = Inr c"
  shows "0 \<in> set anomLbl"
    and "set detected_anomalies \<subseteq> set anomLbl"
    and "set invalid_detections \<subseteq> set anomDetns"
    and "as_int (TruePositives c) =
           Some (sum_list (map (\<lambda>k. int (count_list anomLbl k)) detected_anomalies))"
    and "as_int (FalseNegatives c) =
           Some (int (length anomDetn) - int (count_list anomLbl 0) -
             sum_list (map (\<lambda>k. int (count_list anomLbl k)) detected_anomalies))"
    and "as_int (FalsePositives c) =
           Some (sum_list (map (\<lambda>k. int (count_list anomDetns k)) invalid_detections))"
    and "as_int (TrueNegatives c) =
           Some (int (count_list anomLbl 0) -
             sum_list (map (\<lambda>k. int (count_list anomDetns k)) invalid_detections))"
proof -
  have cond: "set detected_anomalies \<subseteq> set anomLbl \<and> 0 \<in> set anomLbl \<and>
         set invalid_detections \<subseteq> set anomDetns"
    using assms unfolding metrics_counts_closed by (simp split: if_splits)
  then show "0 \<in> set anomLbl" "set detected_anomalies \<subseteq> set anomLbl"
    "set invalid_detections \<subseteq> set anomDetns" by simp_all
  from assms cond have c: "c = \<lparr>TruePositives = py_sum (map (\<lambda>k. int (count_list anomLbl k)) detected_anomalies),
        FalseNegatives = NpInt (int (length anomDetn) - int (count_list anomLbl 0) -
           sum_list (map (\<lambda>k. int (count_list anomLbl k)) detected_anomalies)),
        FalsePositives = py_sum (map (\<lambda>k. int (count_list anomDetns k)) invalid_detections),
        TrueNegatives = NpInt (int (count_list anomLbl 0) -
           sum_list (map (\<lambda>k. int (count_list anomDetns k)) invalid_detections))\<rparr>"
    unfolding metrics_counts_closed by simp
  show "as_int (TruePositives c) =
           Some (sum_list (map (\<lambda>k. int (count_list anomLbl k)) detected_anomalies))"
    by (simp add: c as_int_py_sum)
  show "as_int (FalseNegatives c) =
           Some (int (length anomDetn) - int (count_list anomLbl 0) -
             sum_list (map (\<lambda>k. int (count_list anomLbl k)) detected_anomalies))"
    by (simp add: c)
  show "as_int (FalsePositives c) =
           Some (sum_list (map (\<lambda>k. int (count_list anomDetns k)) invalid_detections))"
    by (simp add: c as_int_py_sum)
  show "as_int (TrueNegatives c) =
           Some (int (count_list anomLbl 0) -
             sum_list (map (\<lambda>k. int (count_list anomDetns k)) invalid_detections))"
    by (simp add: c)
qed

lemma run_starts_one_rise:
  "1 \<le> j \<Longrightarrow> j \<le> Suc n \<Longrightarrow> run_starts (False # replicate (Suc n) True) j = 1"
proof (induction j)
  case 0
  then show ?case by simp
next
  case (Suc j)
  show ?case
  proof (cases j)
    case 0
    then show ?thesis by simp
  next
    case (Suc j')
    with Suc.IH Suc.prems have "run_starts (False # replicate (Suc n) True) j = 1" by simp
    moreover have "(False # replicate (Suc n) True) ! j"
      using Suc Suc.prems by (simp del: replicate_Suc)
    ultimately show ?thesis by simp
  qed
qed

lemma determine_events_no_zero:
  "0 \<notin> set (determine_events (True # replicate (Suc n) False))"
proof -
  let ?f = "False # replicate (Suc n) True"
  have "seg_value ?f (length ?f) j = 1" if "j < length ?f" for j
  proof (cases j)
    case 0
    then show ?thesis by (simp add: seg_value_def)
  next
    case (Suc j')
    then have "?f ! j" using that by (simp del: replicate_Suc)
    then have "seg_value ?f (length ?f) j = run_starts ?f j" by (rule seg_value_flagged)
    also have "\<dots> = 1" using that Suc by (intro run_starts_one_rise) simp_all
    finally show ?thesis .
  qed
  then have "\<forall>x \<in> set (determine_detections ?f). x = 1"
    by (auto simp add: determine_detections_closed simp del: replicate_Suc upt_Suc)
  moreover have "determine_events (True # replicate (Suc n) False) = determine_detections ?f"
    by (simp add: determine_events_eq del: replicate_Suc)
  ultimately show ?thesis by auto
qed

lemma no_flag_replicate: "True \<notin> set xs \<Longrightarrow> xs = replicate (length xs) False"
  by (induction xs) auto

lemma overlaps_no_flag: "True \<notin> set anomDetn \<Longrightarrow> k \<le> length anomDetn \<Longrightarrow>
  overlaps anomLbl anomDetn anomDetns k = []"
proof -
  assume a: "True \<notin> set anomDetn" "k \<le> length anomDetn"
  have "\<not> anomDetn ! i" if "i < k" for i
    using a that nth_mem [of i anomDetn] by (cases "anomDetn ! i") auto
  then show ?thesis by (simp add: overlaps_def filter_empty_conv)
qed

lemma nonzero_count:
  "int (length xs) - int (count_list xs 0) = int (length (filter (\<lambda>v. v \<noteq> 0) xs))"
  for xs :: "int list"
  by (induction xs) auto

subsection \<open>Equal label and detection flags\<close>

lemma false_loop_all_valid:
  "int k \<le> M \<Longrightarrow> foldl (false_step [1..M]) ([], 0) [1..int k] = ([], k)"
proof (induction k)
  case 0
  then show ?case by simp
next
  case (Suc k)
  have up: "[1..1 + int k] = [1..int k] @ [1 + int k]"
    using upto_rec2 [of 1 "1 + int k"] by simp
  have len: "k < length [1..M]" using Suc.prems by simp
  have nth: "[1..M] ! k = 1 + int k" using nth_upto [of 1 k M] Suc.prems by simp
  have IH: "foldl (false_step [1..M]) ([], 0) [1..int k] = ([], k)"
    using Suc by simp
  have "foldl (false_step [1..M]) ([], 0) [1..1 + int k] =
        false_step [1..M] ([], k) (1 + int k)"
    by (simp only: up foldl_append IH foldl.simps)
  also have "\<dots> = ([], Suc k)" using len nth by (simp del: length_upto)
  finally show ?case by simp
qed

lemma false_loop_upto: "fst (foldl (false_step [1..M]) ([], 0) [1..M - 1]) = []"
proof (cases "1 \<le> M")
  case True
  then have "M - 1 = int (nat (M - 1))" by simp
  moreover have "int (nat (M - 1)) \<le> M" using True by simp
  ultimately show ?thesis using false_loop_all_valid [of "nat (M - 1)" M] by simp
next
  case False
  then show ?thesis by simp
qed

lemma overlaps_same_set:
  assumes "flags \<noteq> []"
  shows "set (map fst (overlaps (determine_detections flags) flags (determine_detections flags)
           (length flags))) = set (determine_detections flags) - {0}"
    (is "set ?L = set ?E - {0}")
proof
  show "set ?L \<subseteq> set ?E - {0}"
    using assms by (auto simp add: map_fst_overlaps length_determine_detections)
  show "set ?E - {0} \<subseteq> set ?L"
  proof
    fix x assume x: "x \<in> set ?E - {0}"
    then have "1 \<le> x" "x \<le> run_starts flags (length flags - 1)"
      using detections_values [OF assms] by auto
    from detections_ids_present [OF this] obtain i where
      i: "i < length flags" "flags ! i" "?E ! i = x" by blast
    with x have "i \<in> set (filter (\<lambda>i. flags ! i \<and> 0 \<noteq> ?E ! i) [0..<length flags])" by auto
    then have "?E ! i \<in> set ?L" unfolding map_fst_overlaps by simp
    then show "x \<in> set ?L" using i by simp
  qed
qed

lemma set_determine_detections:
  assumes "flags \<noteq> []"
  shows "set (determine_detections flags) - {0} = {1..Max (set (determine_detections flags))}"
proof -
  let ?M = "run_starts flags (length flags - 1)"
  have "set (determine_detections flags) - {0} = {1..?M}"
  proof
    show "set (determine_detections flags) - {0} \<subseteq> {1..?M}"
      using detections_values [OF assms] by auto
    show "{1..?M} \<subseteq> set (determine_detections flags) - {0}"
    proof
      fix k assume "k \<in> {1..?M}"
      then have k: "1 \<le> k" "k \<le> ?M" by simp_all
      from detections_ids_present [OF k] obtain i where
        "i < length flags" "determine_detections flags ! i = k" by blast
      then have "k \<in> set (determine_detections flags)"
        using nth_mem [of i "determine_detections flags"] assms
        by (simp add: length_determine_detections)
      with k show "k \<in> set (determine_detections flags) - {0}" by simp
    qed
  qed
  then show ?thesis by (simp only: Max_determine_detections [OF assms])
qed

subsection \<open>Kinds of the confusion counts\<close>

lemma metrics_counts_kinds:
  assumes "metrics_counts anomDetns anomDetn anomLbl da ivd = Inr c"
    and "as_int (TruePositives c) = Some tp" "as_int (FalseNegatives c) = Some fn"
    and "as_int (FalsePositives c) = Some fp" "as_int (TrueNegatives c) = Some tn"
  shows "TruePositives c = PyInt tp"
    and "FalsePositives c = PyInt fp"
    and "FalseNegatives c = NpInt fn"
    and "TrueNegatives c = NpInt tn"
proof -
  have cond: "set da \<subseteq> set anomLbl" "0 \<in> set anomLbl" "set ivd \<subseteq> set anomDetns"
    using assms(1) unfolding metrics_counts_closed by (simp_all split: if_splits)
  from assms(1) cond have c: "c = \<lparr>TruePositives = py_sum (map (\<lambda>k. int (count_list anomLbl k)) da),
        FalseNegatives = NpInt (int (length anomDetn) - int (count_list anomLbl 0) -
           sum_list (map (\<lambda>k. int (count_list anomLbl k)) da)),
        FalsePositives = py_sum (map (\<lambda>k. int (count_list anomDetns k)) ivd),
        TrueNegatives = NpInt (int (count_list anomLbl 0) -
           sum_list (map (\<lambda>k. int (count_list anomDetns k)) ivd))\<rparr>"
    unfolding metrics_counts_closed by simp
  show "TruePositives c = PyInt tp" using assms(2) by (simp add: c)
  show "FalsePositives c = PyInt fp" using assms(4) by (simp add: c)
  show "FalseNegatives c = NpInt fn" using assms(3) by (simp add: c)
  show "TrueNegatives c = NpInt tn" using assms(5) by (simp add: c)
qed

lemma s_div_error: "s_div a b = Inl e \<Longrightarrow> e = ZeroDivisionError"
  by (simp add: s_div_def split: if_splits)

lemma metrics_after_counts:
  assumes "metrics_counts anomDetns anomDetn anomLbl da ivd = Inr c"
  shows "metrics anomDetns anomDetn anomLbl da ivd = Inl ZeroDivisionError \<or>
    (\<exists>r. metrics anomDetns anomDetn anomLbl da ivd = Inr r \<and>
         FalseNegatives r = FalseNegatives c)"
  unfolding metrics_def assms Let_def
  by (auto split: sum.splits dest: s_div_error)

lemma fadd_Finite_iff: "fadd a b = Finite z \<longleftrightarrow> (\<exists>x y. a = Finite x \<and> b = Finite y \<and> z = x + y)"
  by (cases a; cases b) auto

subsection \<open>windowing without detections, and with the label flags as detections\<close>

lemma windowing_returns:
  "normal_lbl \<noteq> [] \<Longrightarrow>
   \<exists>anomLbl anomDetns detected_anomalies invalid_detections.
     windowing srs normal_lbl anomDetn =
       Inr (anomLbl, fill_null_True (reindex anomDetn (map fst normal_lbl)), anomDetns,
            detected_anomalies, invalid_detections)"
  by (simp add: windowing_closed Let_def del: remdups_adj.simps)

lemma windowing_no_flag:
  assumes "windowing srs normal_lbl anomDetn =
      Inr (anomLbl, anomDetn', anomDetns, detected_anomalies, invalid_detections)"
    and "True \<notin> set anomDetn'"
  shows "detected_anomalies = [] \<and> invalid_detections = [] \<and>
    (0 \<in> set anomLbl \<longrightarrow>
       metrics_counts anomDetns anomDetn' anomLbl detected_anomalies invalid_detections =
         Inr \<lparr>TruePositives = PyInt 0,
              FalseNegatives = NpInt (int (length (filter (\<lambda>v. v \<noteq> 0) anomLbl))),
              FalsePositives = PyInt 0,
              TrueNegatives = NpInt (int (count_list anomLbl 0))\<rparr>)"
proof -
  note w = windowing_InrD [OF assms(1)]
  let ?n = "length normal_lbl"
  have ov: "overlaps anomLbl anomDetn' anomDetns ?n = []"
    by (rule overlaps_no_flag) (use assms(2) w(8) in simp_all)
  have da: "detected_anomalies = []" unfolding w(5) ov by simp
  obtain m where m: "?n = Suc m" using w(1) by (cases normal_lbl) auto
  have "anomDetn' = replicate (Suc m) False"
    using no_flag_replicate [OF assms(2)] w(8) m by simp
  then have dets: "anomDetns = replicate (Suc m) 0"
    unfolding w(4) by (simp only: determine_detections_all_False)
  have "Max (set anomDetns) = 0" unfolding dets by (simp only: set_replicate_Suc Max_singleton)
  then have iv: "invalid_detections = []" unfolding w(6) by simp
  have "metrics_counts anomDetns anomDetn' anomLbl [] [] =
         Inr \<lparr>TruePositives = PyInt 0,
              FalseNegatives = NpInt (int (length (filter (\<lambda>v. v \<noteq> 0) anomLbl))),
              FalsePositives = PyInt 0,
              TrueNegatives = NpInt (int (count_list anomLbl 0))\<rparr>" if "0 \<in> set anomLbl"
    using that nonzero_count [of anomLbl] w(7) w(8)
    by (simp add: metrics_counts_closed)
  then show ?thesis by (simp add: da iv)
qed

lemma windowing_equal_flags:
  assumes "windowing srs normal_lbl anomDetn =
      Inr (anomLbl, anomDetn', anomDetns, detected_anomalies, invalid_detections)"
    and "anomDetn' = map Not (map snd normal_lbl)"
  shows "(0 \<in> set anomLbl \<longrightarrow>
      (\<exists>tp. metrics_counts anomDetns anomDetn' anomLbl detected_anomalies invalid_detections =
         Inr \<lparr>TruePositives = tp, FalseNegatives = NpInt 0, FalsePositives = PyInt 0,
              TrueNegatives = NpInt (int (count_list anomLbl 0))\<rparr>)) \<and>
    (0 \<notin> set anomLbl \<longrightarrow>
      metrics_counts anomDetns anomDetn' anomLbl detected_anomalies invalid_detections =
        Inl LookupError)"
proof -
  note w = windowing_InrD [OF assms(1)]
  let ?n = "length normal_lbl"
  have ne: "anomDetn' \<noteq> []" using w(1) w(8) by auto
  have same: "anomLbl = anomDetns"
    unfolding w(2) w(4) determine_events_eq assms(2) ..
  have len: "length anomDetn' = ?n" by (rule w(8))
  let ?L = "map fst (overlaps anomDetns anomDetn' anomDetns ?n)"
  have fs: "map snd (overlaps anomDetns anomDetn' anomDetns ?n) = ?L"
    by (simp add: map_fst_overlaps map_snd_overlaps)
  have da: "detected_anomalies = tl (remdups_adj (0 # ?L))"
    using w(5) unfolding same .
  have srt: "sorted (0 # ?L)"
    using overlaps_snd_sorted [of ?n anomDetn' anomDetns] len unfolding fs w(4) [symmetric]
    by simp
  note dd = dedup_sorted [OF srt, folded da]
  have setL: "set ?L = set anomDetns - {0}"
    using overlaps_same_set [OF ne] unfolding w(4) [symmetric] len .
  have set_da: "set detected_anomalies = set anomDetns - {0}"
    using dd setL by auto
  have "set detected_anomalies = set [1..Max (set anomDetns)]"
    using set_determine_detections [OF ne] set_da unfolding w(4) [symmetric] by simp
  then have da_upto: "detected_anomalies = [1..Max (set anomDetns)]"
    using dd by (intro sorted_distinct_set_unique) simp_all
  have iv: "invalid_detections = []"
    using w(6) unfolding same fs da [symmetric] da_upto by (simp only: false_loop_upto)
  have tp: "sum_list (map (\<lambda>k. int (count_list anomLbl k)) detected_anomalies) =
    int (length (filter (\<lambda>v. v \<noteq> 0) anomLbl))"
  proof -
    have "filter (\<lambda>x. x \<in> set detected_anomalies) anomLbl = filter (\<lambda>v. v \<noteq> 0) anomLbl"
      by (rule filter_cong) (auto simp add: set_da same)
    then show ?thesis using dd by (simp add: sum_counts_distinct)
  qed
  have sub: "set detected_anomalies \<subseteq> set anomLbl" using set_da same by auto
  have l: "length anomLbl = length anomDetn'" using w(7) w(8) by simp
  show ?thesis
    using nonzero_count [of anomLbl] l
    by (simp add: metrics_counts_closed iv sub tp)
qed

lemma windowing_counts_conservation:
  assumes "windowing srs normal_lbl anomDetn =
      Inr (anomLbl, anomDetn', anomDetns, detected_anomalies, invalid_detections)"
    and "metrics_counts anomDetns anomDetn' anomLbl detected_anomalies invalid_detections = Inr c"
  shows "\<exists>tp fn fp tn.
      as_int (TruePositives c) = Some tp \<and> as_int (FalseNegatives c) = Some fn \<and>
      as_int (FalsePositives c) = Some fp \<and> as_int (TrueNegatives c) = Some tn \<and>
      tp + fn + fp + tn = int (length anomDetn') \<and> 0 \<le> tp \<and> 0 \<le> fn \<and> 0 \<le> fp"
proof -
  note w = windowing_InrD [OF assms(1)]
  note d = windowing_detected_distinct [OF assms(1)]
  note m = metrics_counts_InrD [OF assms(2)]
  let ?tp = "sum_list (map (\<lambda>k. int (count_list anomLbl k)) detected_anomalies)"
  let ?fp = "sum_list (map (\<lambda>k. int (count_list anomDetns k)) invalid_detections)"
  let ?c0 = "int (count_list anomLbl 0)"
  let ?n = "int (length anomDetn')"
  have tp: "?tp = int (length (filter (\<lambda>x. x \<in> set detected_anomalies) anomLbl))"
    using d by (simp add: sum_counts_distinct)
  have "length (filter (\<lambda>x. x \<in> set detected_anomalies) anomLbl) +
        length (filter ((=) 0) anomLbl) \<le> length anomLbl"
    by (rule length_filter_disjoint) (use d in auto)
  moreover have "count_list anomLbl 0 = length (filter ((=) 0) anomLbl)"
    by (rule count_list_eq_length_filter)
  ultimately have fn: "0 \<le> ?n - ?c0 - ?tp"
    unfolding tp using w(7) w(8) by linarith
  have "?tp + (?n - ?c0 - ?tp) + ?fp + (?c0 - ?fp) = ?n" by simp
  moreover have "0 \<le> ?tp" "0 \<le> ?fp" by (rule sum_counts_nonneg)+
  ultimately show ?thesis using m(4-7) fn by blast
qed

lemma false_loop_subset:
  "set (fst (foldl (false_step v) (acc, d) xs)) \<subseteq> set acc \<union> set xs"
proof (induction xs arbitrary: acc d)
  case Nil
  then show ?case by simp
next
  case (Cons a xs)
  obtain acc' d' where st: "false_step v (acc, d) a = (acc', d')"
    by (cases "false_step v (acc, d) a")
  then have sub: "set acc' \<subseteq> set acc \<union> {a}" by (auto split: if_splits)
  have step: "foldl (false_step v) (acc, d) (a # xs) = foldl (false_step v) (acc', d') xs"
    by (simp only: foldl.simps st)
  have "set (fst (foldl (false_step v) (acc', d') xs)) \<subseteq> set acc' \<union> set xs"
    by (rule Cons.IH)
  then show ?case using sub unfolding step by auto
qed

lemma windowing_invalid_subset:
  assumes "windowing srs normal_lbl anomDetn =
    Inr (anomLbl, anomDetn', anomDetns, detected_anomalies, invalid_detections)"
  shows "set invalid_detections \<subseteq> set anomDetns"
proof
  note w = windowing_InrD [OF assms]
  have ne: "anomDetn' \<noteq> []" using w(1) w(8) by auto
  fix x assume "x \<in> set invalid_detections"
  then have "x \<in> set [1..Max (set anomDetns) - 1]"
    unfolding w(6) using false_loop_subset by fastforce
  then have "x \<in> {1..Max (set anomDetns)}" by simp
  then have "x \<in> set anomDetns - {0}"
    using set_determine_detections [OF ne] unfolding w(4) [symmetric] by simp
  then show "x \<in> set anomDetns" by simp
qed

section \<open>The claims\<close>

subsection \<open>C1: positions whose flag is false\<close>

text \<open>
  C1 (amended). Let \<open>i \<ge> 1\<close> be a position whose flag is false and which is not
  immediately before a run start (position \<open>i + 1\<close> is out of range or not flagged). Both
  segmenters (\<open>determine_detections\<close> on the flags, \<open>determine_events\<close> on the
  negated \<open>normal_lbl\<close> flags) assign \<open>0\<close> at \<open>i\<close> when the flag at \<open>i - 1\<close> is false as well;
  when the flag at \<open>i - 1\<close> is true, position \<open>i\<close> is the point right after a run and gets the
  running counter, the number of run starts among the positions \<open>1..i - 1\<close>, which is the
  identifier of the run that has just ended.
\<close>

theorem segmenter_unflagged_position:
  "1 \<le> i \<Longrightarrow> i < length flags \<Longrightarrow> \<not> flags ! i \<Longrightarrow>
   \<not> (Suc i < length flags \<and> flags ! Suc i) \<Longrightarrow>
   determine_detections flags ! i = (if flags ! (i - 1) then run_starts flags (i - 1) else 0) \<and>
   determine_events (map Not flags) ! i =
     (if flags ! (i - 1) then run_starts flags (i - 1) else 0)"
proof -
  assume a: "1 \<le> i" "i < length flags" "\<not> flags ! i"
    "\<not> (Suc i < length flags \<and> flags ! Suc i)"
  from a(1) obtain i' where i': "i = Suc i'" by (cases i) auto
  have "run_starts flags i = run_starts flags (i - 1)"
    using a(3) by (simp add: i')
  then have "seg_value flags (length flags) i =
    (if flags ! (i - 1) then run_starts flags (i - 1) else 0)"
    using a by (auto simp add: seg_value_def)
  then show ?thesis
    using a(2) by (simp add: determine_events_map_Not determine_detections_nth)
qed

text \<open>
  The theorem at the flags \<open>[False, True, False]\<close> and position 2, the point after the
  run: it carries the identifier 1.
\<close>

theorem segmenter_unflagged_position_witness:
  "determine_detections [False, True, False] ! 2 = 1 \<and>
   determine_events [True, False, True] ! 2 = 1"
  using segmenter_unflagged_position [of 2 "[False, True, False]"]
  by (simp add: numeral_2_eq_2)

text \<open>
  The claim as stated fails there: the flag at position 2 is false, no run starts at
  position 3, and the identifier at position 2 is not 0.
\<close>

theorem segmenter_unflagged_counterexample:
  "\<not> [False, True, False] ! 2 \<and> determine_detections [False, True, False] ! 2 \<noteq> 0 \<and>
   [True, False, True] ! 2 \<and> determine_events [True, False, True] ! 2 \<noteq> 0"
  by (simp add: determine_detections_def determine_events_def numeral_2_eq_2 upt_rec)

subsection \<open>C8: constant flag series\<close>

text \<open>
  C8. On a non-empty series without any flagged point both segmenters return zeros only.
  On a non-empty series whose points are all flagged they return zeros only as well: the
  run starts at position 0, where the loop never sees a rise, so the counter stays 0 and
  no position gets a positive identifier.
\<close>

theorem segmenter_constant_flags:
  "determine_detections (replicate (Suc n) False) = replicate (Suc n) 0 \<and>
   determine_events (replicate (Suc n) True) = replicate (Suc n) 0 \<and>
   determine_detections (replicate (Suc n) True) = replicate (Suc n) 0 \<and>
   determine_events (replicate (Suc n) False) = replicate (Suc n) 0"
proof -
  have "determine_events (replicate (Suc n) True) =
    determine_detections (replicate (Suc n) False)"
    by (simp add: determine_events_eq del: replicate_Suc)
  moreover have "determine_events (replicate (Suc n) False) =
    determine_detections (replicate (Suc n) True)"
    by (simp add: determine_events_eq del: replicate_Suc)
  ultimately show ?thesis
    by (simp only: determine_detections_all_False determine_detections_all_True)
qed

subsection \<open>C2: the false alarms\<close>

text \<open>
  C2. \<open>false_detections\<close> does not return every identifier of \<open>1..max\<close> that is
  missing from \<open>valid_detections\<close>. For the label flags \<open>[F,T,F,F,F,F]\<close> and the detection
  flags \<open>[F,T,F,F,T,F]\<close>, \<open>windowing\<close> finds the detection events 1 and 2 and validates
  event 1 only, yet it reports no false alarm: \<open>range(1, max)\<close> never reaches the largest
  identifier 2. With the events 1, 2, 3 and \<open>valid_detections = [1]\<close> the result is empty
  as well: once \<open>det_ind\<close> has passed the end of \<open>valid_detections\<close> no identifier is
  appended any more.
\<close>

theorem false_detections_misses_identifiers:
  "windowing () [(0::nat, True), (1, False), (2, True), (3, True), (4, True), (5, True)]
     (map_of [(0, False), (1, True), (2, False), (3, False), (4, True), (5, False)]) =
     Inr ([1, 1, 1, 0, 0, 0], [False, True, False, False, True, False], [1, 1, 1, 2, 2, 2],
          [1], []) \<and>
   false_detections [1, 1, 1, 2, 2, 2] [1] = Inr [] \<and>
   false_detections [1, 1, 1, 0, 2, 2, 2, 0, 3, 3] [1] = Inr []"
  by code_simp

subsection \<open>C3: the matcher\<close>

text \<open>
  C3 (amended). The matcher visits the positions where the detection \<^emph>\<open>flag\<close>
  \<open>anomDetn[0][i]\<close> is set, not those where the detection event identifier is non-zero. For
  columns of equal length its two results are the label identifiers and the detection
  identifiers read at the visited positions whose label identifier is not 0
  (\<open>overlaps\<close>), each sequence started with the sentinel 0, with every value that equals
  its predecessor dropped (\<open>remdups_adj\<close>), and the sentinel removed again. When the two
  event series come from the segmenters, neither result has a duplicate.
\<close>

theorem matcher_gated_by_detection_flags:
  "(length anomLbl = length anomDetn \<and> length anomDetns = length anomDetn \<longrightarrow>
      compare_lbl_detns anomLbl anomDetn anomDetns =
        Inr (anomDetns,
             tl (remdups_adj (0 # map fst (overlaps anomLbl anomDetn anomDetns (length anomDetn)))),
             tl (remdups_adj (0 # map snd (overlaps anomLbl anomDetn anomDetns (length anomDetn)))))) \<and>
   (length normal_lbl = length anomDetn \<and>
    compare_lbl_detns (determine_events normal_lbl) anomDetn (determine_detections anomDetn) =
      Inr (r, detected_anomalies, valid_detections) \<longrightarrow>
      distinct detected_anomalies \<and> distinct valid_detections)"
proof (intro conjI impI)
  assume "length anomLbl = length anomDetn \<and> length anomDetns = length anomDetn"
  then show "compare_lbl_detns anomLbl anomDetn anomDetns =
        Inr (anomDetns,
             tl (remdups_adj (0 # map fst (overlaps anomLbl anomDetn anomDetns (length anomDetn)))),
             tl (remdups_adj (0 # map snd (overlaps anomLbl anomDetn anomDetns (length anomDetn)))))"
    by (simp only: compare_lbl_detns_closed)
next
  assume a: "length normal_lbl = length anomDetn \<and>
    compare_lbl_detns (determine_events normal_lbl) anomDetn (determine_detections anomDetn) =
      Inr (r, detected_anomalies, valid_detections)"
  let ?lbl = "determine_events normal_lbl" and ?dets = "determine_detections anomDetn"
  let ?n = "length anomDetn"
  have both: "distinct detected_anomalies \<and> distinct valid_detections"
  proof (cases "anomDetn = []")
    case True
    with a show ?thesis by (simp add: compare_lbl_detns_def)
  next
    case False
    with a have ne: "normal_lbl \<noteq> []" by auto
    have l1: "length ?lbl = ?n" using a ne by (simp add: length_determine_events)
    have l2: "length ?dets = ?n" using False by (simp add: length_determine_detections)
    have s1: "sorted (0 # map fst (overlaps ?lbl anomDetn ?dets ?n))"
      unfolding determine_events_eq by (rule overlaps_fst_sorted) (use a in simp)
    have s2: "sorted (0 # map snd (overlaps ?lbl anomDetn ?dets ?n))"
      by (rule overlaps_snd_sorted) simp
    from a have "detected_anomalies = tl (remdups_adj (0 # map fst (overlaps ?lbl anomDetn ?dets ?n)))"
      "valid_detections = tl (remdups_adj (0 # map snd (overlaps ?lbl anomDetn ?dets ?n)))"
      unfolding compare_lbl_detns_closed [OF l1 l2] by (auto simp del: remdups_adj.simps)
    then show ?thesis using dedup_sorted [OF s1] dedup_sorted [OF s2] by simp
  qed
  from both show "distinct detected_anomalies" ..
  from both show "distinct valid_detections" ..
qed

text \<open>
  The theorem on the label flags \<open>[F,T,T,F]\<close> and the detection flags \<open>[F,F,T,F]\<close>.
\<close>

theorem matcher_gated_by_detection_flags_witness:
  "compare_lbl_detns [1, 1, 1, 1] [False, False, True, False] [0, 1, 1, 1] =
     Inr ([0, 1, 1, 1], [1], [1]) \<and> distinct [1 :: int]"
proof -
  have a: "determine_events [True, False, False, True] = [1, 1, 1, 1]" by code_simp
  have b: "determine_detections [False, False, True, False] = [0, 1, 1, 1]" by code_simp
  have c: "overlaps [1, 1, 1, 1] [False, False, True, False] [0, 1, 1, 1]
    (Suc (Suc (Suc (Suc 0)))) = [(1, 1)]"
    by code_simp
  show ?thesis
    using matcher_gated_by_detection_flags [of "[1, 1, 1, 1]" "[False, False, True, False]"
        "[0, 1, 1, 1]" "[True, False, False, True]" "[0, 1, 1, 1]" "[1]" "[1]"]
    by (simp add: a b c)
qed

text \<open>
  The claim as stated fails on the label flags \<open>[F,F,F,T]\<close> and the detection flags
  \<open>[F,T,F,F]\<close>: at position 2 both event identifiers are non-zero, the detection flag is
  not set, and nothing is appended.
\<close>

theorem matcher_counterexample:
  "determine_events [True, True, True, False] = [0, 0, 1, 1] \<and>
   determine_detections [False, True, False, False] = [1, 1, 1, 0] \<and>
   [1, 1, 1, 0 :: int] ! 2 \<noteq> 0 \<and> [0, 0, 1, 1 :: int] ! 2 \<noteq> 0 \<and>
   compare_lbl_detns [0, 0, 1, 1] [False, True, False, False] [1, 1, 1, 0] =
     Inr ([1, 1, 1, 0], [], [])"
  by code_simp

subsection \<open>C9: the aligner\<close>

text \<open>
  C9. For a non-empty label series \<open>windowing\<close> returns, and the detection flags it
  returns are those of the detection frame reindexed to the index of the label series:
  one flag per label of that index, the frame's own flag where the frame has the label
  and \<open>True\<close> where it has not.
\<close>

theorem aligner_fills_missing_with_True:
  "normal_lbl \<noteq> [] \<Longrightarrow>
   \<exists>anomLbl anomDetn' anomDetns detected_anomalies invalid_detections.
     windowing srs normal_lbl anomDetn =
       Inr (anomLbl, anomDetn', anomDetns, detected_anomalies, invalid_detections) \<and>
     length anomDetn' = length normal_lbl \<and>
     (\<forall>i<length normal_lbl.
        anomDetn' ! i = (case anomDetn (fst (normal_lbl ! i)) of None \<Rightarrow> True | Some b \<Rightarrow> b))"
  by (simp add: windowing_closed Let_def fill_null_True_def reindex_def del: remdups_adj.simps)

text \<open>
  The theorem on an index \<open>0, 1, 2\<close> and a detection frame without the label 1.
\<close>

theorem aligner_fills_missing_with_True_witness:
  "\<exists>anomLbl anomDetn' anomDetns detected_anomalies invalid_detections.
     windowing () [(0::nat, True), (1, False), (2, True)] (map_of [(0, False), (2, False)]) =
       Inr (anomLbl, anomDetn', anomDetns, detected_anomalies, invalid_detections) \<and>
     length anomDetn' = 3 \<and>
     anomDetn' ! 0 = False \<and> anomDetn' ! 1 = True \<and> anomDetn' ! 2 = False"
  using aligner_fills_missing_with_True [of "[(0::nat, True), (1, False), (2, True)]" "()"
      "map_of [(0, False), (2, False)]"]
  by (auto simp add: numeral_3_eq_3 numeral_2_eq_2 less_Suc_eq)

subsection \<open>C4: the confusion counts\<close>

text \<open>
  C4. The fourth confusion count can be negative. On the label flags \<open>[F,F,F,T,T,T]\<close> and
  the detection flags \<open>[F,T,F,F,T,F]\<close>, \<open>windowing\<close> validates label event 1 (four
  points, position 2 among them) and reports detection event 1 as a false alarm (three
  points, position 2 among them): position 2 is counted in TP and in FP, and
  TN = 6 - 4 - 0 - 3 is \<open>-1\<close>.
\<close>

theorem true_negatives_negative:
  "windowing () [(0::nat, True), (1, True), (2, True), (3, False), (4, False), (5, False)]
     (map_of [(0, False), (1, True), (2, False), (3, False), (4, True), (5, False)]) =
     Inr ([0, 0, 1, 1, 1, 1], [False, True, False, False, True, False], [1, 1, 1, 2, 2, 2],
          [1], [1]) \<and>
   metrics_counts [1, 1, 1, 2, 2, 2] [False, True, False, False, True, False]
     [0, 0, 1, 1, 1, 1] [1] [1] =
     Inr \<lparr>TruePositives = PyInt 4, FalseNegatives = NpInt 0, FalsePositives = PyInt 3,
          TrueNegatives = NpInt (- 1)\<rparr>"
  by code_simp

subsection \<open>C5: no detection at all\<close>

text \<open>
  C5 (amended). If the label series is not empty and the detection frame has the flag
  \<open>False\<close> at every label of its index, \<open>windowing\<close> does not fail: it returns an empty
  list of detected anomalies and an empty list of false alarms. If moreover the label event
  series has a zero, the counts are TP = 0, FP = 0 and FN = the number of non-zero points of
  the label event series (the labelled runs with their widening points), TN the number of
  its zero points.
\<close>

theorem no_detections_counts:
  assumes "normal_lbl \<noteq> []"
    and "\<forall>k \<in> set (map fst normal_lbl). anomDetn k = Some False"
  shows "\<exists>anomLbl anomDetn' anomDetns.
      windowing srs normal_lbl anomDetn = Inr (anomLbl, anomDetn', anomDetns, [], []) \<and>
      True \<notin> set anomDetn' \<and>
      (0 \<in> set anomLbl \<longrightarrow>
         metrics_counts anomDetns anomDetn' anomLbl [] [] =
           Inr \<lparr>TruePositives = PyInt 0,
                FalseNegatives = NpInt (int (length (filter (\<lambda>v. v \<noteq> 0) anomLbl))),
                FalsePositives = PyInt 0,
                TrueNegatives = NpInt (int (count_list anomLbl 0))\<rparr>)"
proof -
  let ?B = "fill_null_True (reindex anomDetn (map fst normal_lbl))"
  from windowing_returns [OF assms(1), where srs = srs and anomDetn = anomDetn]
  obtain anomLbl anomDetns da ivd where
    w: "windowing srs normal_lbl anomDetn = Inr (anomLbl, ?B, anomDetns, da, ivd)" by blast
  have nf: "True \<notin> set ?B"
    using assms(2) by (auto simp add: fill_null_True_def reindex_def)
  from windowing_no_flag [OF w nf] w nf show ?thesis by auto
qed

text \<open>
  The theorem on the label flags \<open>[F,F,T,F,F]\<close>: one labelled point, FN = 3.
\<close>

theorem no_detections_counts_witness:
  "windowing () [(0::nat, True), (1, True), (2, False), (3, True), (4, True)]
     (map_of [(0, False), (1, False), (2, False), (3, False), (4, False)]) =
     Inr ([0, 1, 1, 1, 0], [False, False, False, False, False], [0, 0, 0, 0, 0], [], []) \<and>
   metrics_counts [0, 0, 0, 0, 0] [False, False, False, False, False] [0, 1, 1, 1, 0] [] [] =
     Inr \<lparr>TruePositives = PyInt 0, FalseNegatives = NpInt 3, FalsePositives = PyInt 0,
          TrueNegatives = NpInt 2\<rparr>"
proof -
  have w: "windowing () [(0::nat, True), (1, True), (2, False), (3, True), (4, True)]
     (map_of [(0, False), (1, False), (2, False), (3, False), (4, False)]) =
     Inr ([0, 1, 1, 1, 0], [False, False, False, False, False], [0, 0, 0, 0, 0], [], [])"
    by code_simp
  show ?thesis
    using no_detections_counts [of "[(0::nat, True), (1, True), (2, False), (3, True), (4, True)]"
        "map_of [(0, False), (1, False), (2, False), (3, False), (4, False)]" "()"] w
    by auto
qed

text \<open>
  The claim as stated fails on the label flags \<open>[F,T,F,F]\<close> without any detection: one
  point is labelled anomalous, and FN is 3.
\<close>

theorem no_detections_counterexample:
  "windowing () [(0::nat, True), (1, False), (2, True), (3, True)]
     (map_of [(0, False), (1, False), (2, False), (3, False)]) =
     Inr ([1, 1, 1, 0], [False, False, False, False], [0, 0, 0, 0], [], []) \<and>
   metrics_counts [0, 0, 0, 0] [False, False, False, False] [1, 1, 1, 0] [] [] =
     Inr \<lparr>TruePositives = PyInt 0, FalseNegatives = NpInt 3, FalsePositives = PyInt 0,
          TrueNegatives = NpInt 1\<rparr> \<and>
   length (filter Not (map snd [(0::nat, True), (1, False), (2, True), (3, True)])) = 1"
  by code_simp

subsection \<open>C6: equal label and detection flags\<close>

text \<open>
  C6 (amended). Let the label series be non-empty and let the detection flags after the
  alignment equal the label flags (the negated \<open>normal_lbl\<close>). Then \<open>windowing\<close> returns;
  if the label event series has a zero, the counts are computed with FN = 0 and FP = 0;
  if it has none, the lookup of the zero count fails and there are no counts.
\<close>

theorem full_overlap_counts:
  assumes "normal_lbl \<noteq> []"
    and "fill_null_True (reindex anomDetn (map fst normal_lbl)) = map Not (map snd normal_lbl)"
  shows "\<exists>anomLbl anomDetn' anomDetns detected_anomalies invalid_detections.
    windowing srs normal_lbl anomDetn =
      Inr (anomLbl, anomDetn', anomDetns, detected_anomalies, invalid_detections) \<and>
    anomDetn' = map Not (map snd normal_lbl) \<and>
    (0 \<in> set anomLbl \<longrightarrow>
      (\<exists>tp. metrics_counts anomDetns anomDetn' anomLbl detected_anomalies invalid_detections =
         Inr \<lparr>TruePositives = tp, FalseNegatives = NpInt 0, FalsePositives = PyInt 0,
              TrueNegatives = NpInt (int (count_list anomLbl 0))\<rparr>)) \<and>
    (0 \<notin> set anomLbl \<longrightarrow>
      metrics_counts anomDetns anomDetn' anomLbl detected_anomalies invalid_detections =
        Inl LookupError)"
proof -
  let ?B = "fill_null_True (reindex anomDetn (map fst normal_lbl))"
  from windowing_returns [OF assms(1), where srs = srs and anomDetn = anomDetn]
  obtain anomLbl anomDetns da ivd where
    w: "windowing srs normal_lbl anomDetn = Inr (anomLbl, ?B, anomDetns, da, ivd)" by blast
  from windowing_equal_flags [OF w assms(2)] w assms(2) show ?thesis by blast
qed

text \<open>
  The theorem on the label flags \<open>[F,F,T,F,F]\<close> and a detection frame that has the flag
  \<open>False\<close> at the labels 0, 1, 3 and 4 and lacks the label 2, which the alignment fills
  with \<open>True\<close>.
\<close>

theorem full_overlap_counts_witness:
  "windowing () [(0::nat, True), (1, True), (2, False), (3, True), (4, True)]
     (map_of [(0, False), (1, False), (3, False), (4, False)]) =
     Inr ([0, 1, 1, 1, 0], [False, False, True, False, False], [0, 1, 1, 1, 0], [1], []) \<and>
   (\<exists>tp. metrics_counts [0, 1, 1, 1, 0] [False, False, True, False, False] [0, 1, 1, 1, 0]
      [1] [] =
     Inr \<lparr>TruePositives = tp, FalseNegatives = NpInt 0, FalsePositives = PyInt 0,
          TrueNegatives = NpInt 2\<rparr>)"
proof -
  have w: "windowing () [(0::nat, True), (1, True), (2, False), (3, True), (4, True)]
     (map_of [(0, False), (1, False), (3, False), (4, False)]) =
     Inr ([0, 1, 1, 1, 0], [False, False, True, False, False], [0, 1, 1, 1, 0], [1], [])"
    by code_simp
  have h: "fill_null_True (reindex (map_of [(0::nat, False), (1, False), (3, False), (4, False)])
      (map fst [(0::nat, True), (1, True), (2, False), (3, True), (4, True)])) =
    map Not (map snd [(0::nat, True), (1, True), (2, False), (3, True), (4, True)])"
    by code_simp
  have ne: "[(0::nat, True), (1, True), (2, False), (3, True), (4, True)] \<noteq> []" by simp
  show ?thesis
    using full_overlap_counts [OF ne h, of "()"] w by auto
qed

text \<open>
  The claim as stated fails on the label flags \<open>[F,T,T]\<close> with the same detection flags:
  the label event series is \<open>[1,1,1]\<close>, the lookup of the count of 0 fails, and neither
  FN nor FP is computed.
\<close>

theorem full_overlap_counterexample:
  "windowing () [(0::nat, True), (1, False), (2, False)]
     (map_of [(0, False), (1, True), (2, True)]) =
     Inr ([1, 1, 1], [False, True, True], [1, 1, 1], [1], []) \<and>
   [False, True, True] = map Not (map snd [(0::nat, True), (1, False), (2, False)]) \<and>
   metrics_counts [1, 1, 1] [False, True, True] [1, 1, 1] [1] [] = Inl LookupError \<and>
   metrics [1, 1, 1] [False, True, True] [1, 1, 1] [1] [] = Inl LookupError"
  by code_simp

subsection \<open>C7: zero denominators\<close>

text \<open>
  C7 (amended). Let the confusion counts be computed. If TP + FP = 0, the division of the
  precision, one between Python integers, raises \<open>ZeroDivisionError\<close> and
  \<open>metrics\<close> returns no report at all. If TP + FP is not 0, \<open>metrics\<close> returns its
  report, the precision in it is finite, and every other ratio whose denominator is zero
  (TN + FN for NPV, the length for ACC, TP + FN for RCL, PRC + RCL for f1,
  5 TP + 4 FN + FP for f2) is nan or an infinity, numpy's result of such a division, and
  not a finite number.
\<close>

theorem zero_denominator_behaviour:
  assumes "metrics_counts anomDetns anomDetn anomLbl da ivd = Inr c"
    and "as_int (TruePositives c) = Some tp" "as_int (FalseNegatives c) = Some fn"
    and "as_int (FalsePositives c) = Some fp" "as_int (TrueNegatives c) = Some tn"
  shows "(tp + fp = 0 \<longrightarrow> metrics anomDetns anomDetn anomLbl da ivd = Inl ZeroDivisionError) \<and>
         (tp + fp \<noteq> 0 \<longrightarrow> (\<exists>r. metrics anomDetns anomDetn anomLbl da ivd = Inr r \<and>
             is_finite (PRC r) \<and>
             (tn + fn = 0 \<longrightarrow> \<not> is_finite (NPV r)) \<and>
             (length anomDetn = 0 \<longrightarrow> \<not> is_finite (ACC r)) \<and>
             (tp + fn = 0 \<longrightarrow> \<not> is_finite (RCL r)) \<and>
             (fadd (as_float (PRC r)) (as_float (RCL r)) = Finite 0 \<longrightarrow> \<not> is_finite (f1 r)) \<and>
             (5 * tp + 4 * fn + fp = 0 \<longrightarrow> \<not> is_finite (f2 r))))"
proof -
  note k = metrics_counts_kinds [OF assms]
  have r0: "of_int a + of_int b = (0::real) \<longleftrightarrow> a + b = 0" for a b :: int
    by (metis of_int_add of_int_eq_0_iff)
  have r1: "5 * of_int a + 4 * of_int b + of_int d = (0::real) \<longleftrightarrow> 5 * a + 4 * b + d = 0"
    for a b d :: int
  proof -
    have "5 * of_int a + 4 * of_int b + of_int d = (of_int (5 * a + 4 * b + d) :: real)" by simp
    then show ?thesis by (simp only: of_int_eq_0_iff)
  qed
  show ?thesis
    using k
    by (simp add: metrics_def assms(1) s_div_def s_add_def s_mul_def arith_def r0 r1
        fadd_Finite_iff Let_def)
qed

text \<open>
  The theorem on a series without any detection (no report), and on the output of
  \<open>windowing\<close> for the label flags \<open>[F,F,F,T,T,T]\<close> and the detection flags
  \<open>[F,T,F,T,F,F]\<close>, where TN = FN = 0 and NPV is nan.
\<close>

theorem zero_denominator_behaviour_witness:
  "metrics [0, 0, 0, 0, 0] [False, False, False, False, False] [0, 1, 1, 1, 0] [] [] =
     Inl ZeroDivisionError \<and>
   (\<exists>r. metrics [1, 1, 2, 2, 2, 0] [False, True, False, True, False, False]
          [0, 0, 1, 1, 1, 1] [1] [1] = Inr r \<and>
        is_finite (PRC r) \<and> \<not> is_finite (NPV r))"
proof -
  have m1: "metrics_counts [0, 0, 0, 0, 0] [False, False, False, False, False]
      [0, 1, 1, 1, 0] [] [] =
    Inr \<lparr>TruePositives = PyInt 0, FalseNegatives = NpInt 3, FalsePositives = PyInt 0,
         TrueNegatives = NpInt 2\<rparr>"
    by code_simp
  have m2: "metrics_counts [1, 1, 2, 2, 2, 0] [False, True, False, True, False, False]
      [0, 0, 1, 1, 1, 1] [1] [1] =
    Inr \<lparr>TruePositives = PyInt 4, FalseNegatives = NpInt 0, FalsePositives = PyInt 2,
         TrueNegatives = NpInt 0\<rparr>"
    by code_simp
  show ?thesis
    using zero_denominator_behaviour [OF m1, of 0 3 0 2]
      zero_denominator_behaviour [OF m2, of 4 0 2 0]
    by auto
qed

text \<open>
  The claim as stated fails on the label flags \<open>[F,F,T,F,F]\<close> without any detection:
  TP + FP = 0, and the call of \<open>metrics\<close> ends with \<open>ZeroDivisionError\<close>.
\<close>

theorem zero_denominator_counterexample:
  "windowing () [(0::nat, True), (1, True), (2, False), (3, True), (4, True)]
     (map_of [(0, False), (1, False), (2, False), (3, False), (4, False)]) =
     Inr ([0, 1, 1, 1, 0], [False, False, False, False, False], [0, 0, 0, 0, 0], [], []) \<and>
   metrics [0, 0, 0, 0, 0] [False, False, False, False, False] [0, 1, 1, 1, 0] [] [] =
     Inl ZeroDivisionError"
  by code_simp

subsection \<open>C10: the count of the value 0\<close>

text \<open>
  C10. If the label event series has no zero, \<open>metrics\<close> ends with a lookup error and
  returns no report. If it has one and the two lists of identifiers hold only identifiers
  that occur in their event series, \<open>metrics\<close> computes the confusion counts, FN among
  them, and then returns its report with this FN or ends with \<open>ZeroDivisionError\<close>,
  never with a lookup error. The lists that \<open>windowing\<close> returns are of that kind. A
  label event series without a zero is reachable: the segmentation of the label flags
  \<open>[F,T,...,T]\<close> has none.
\<close>

theorem metrics_lookup_of_zero:
  "(0 \<notin> set anomLbl \<longrightarrow>
      metrics anomDetns anomDetn anomLbl detected_anomalies invalid_detections = Inl LookupError) \<and>
   (0 \<in> set anomLbl \<and> set detected_anomalies \<subseteq> set anomLbl \<and>
    set invalid_detections \<subseteq> set anomDetns \<longrightarrow>
      (\<exists>c. metrics_counts anomDetns anomDetn anomLbl detected_anomalies invalid_detections =
             Inr c \<and>
           FalseNegatives c =
             NpInt (int (length anomDetn) - int (count_list anomLbl 0) -
               sum_list (map (\<lambda>k. int (count_list anomLbl k)) detected_anomalies)) \<and>
           (metrics anomDetns anomDetn anomLbl detected_anomalies invalid_detections =
              Inl ZeroDivisionError \<or>
            (\<exists>r. metrics anomDetns anomDetn anomLbl detected_anomalies invalid_detections =
                   Inr r \<and>
                 FalseNegatives r = FalseNegatives c)))) \<and>
   (windowing srs normal_lbl frame =
      Inr (anomLbl, anomDetn, anomDetns, detected_anomalies, invalid_detections) \<longrightarrow>
      set detected_anomalies \<subseteq> set anomLbl \<and> set invalid_detections \<subseteq> set anomDetns) \<and>
   0 \<notin> set (determine_events (True # replicate (Suc n) False))"
proof (intro conjI impI)
  assume "0 \<notin> set anomLbl"
  then show "metrics anomDetns anomDetn anomLbl detected_anomalies invalid_detections =
    Inl LookupError"
    by (simp add: metrics_def metrics_counts_closed)
next
  assume a: "0 \<in> set anomLbl \<and> set detected_anomalies \<subseteq> set anomLbl \<and>
    set invalid_detections \<subseteq> set anomDetns"
  let ?c = "\<lparr>TruePositives = py_sum (map (\<lambda>k. int (count_list anomLbl k)) detected_anomalies),
        FalseNegatives = NpInt (int (length anomDetn) - int (count_list anomLbl 0) -
           sum_list (map (\<lambda>k. int (count_list anomLbl k)) detected_anomalies)),
        FalsePositives = py_sum (map (\<lambda>k. int (count_list anomDetns k)) invalid_detections),
        TrueNegatives = NpInt (int (count_list anomLbl 0) -
           sum_list (map (\<lambda>k. int (count_list anomDetns k)) invalid_detections))\<rparr>"
  have c: "metrics_counts anomDetns anomDetn anomLbl detected_anomalies invalid_detections =
    Inr ?c"
    using a by (simp only: metrics_counts_closed if_True simp_thms)
  have fn: "FalseNegatives ?c =
    NpInt (int (length anomDetn) - int (count_list anomLbl 0) -
      sum_list (map (\<lambda>k. int (count_list anomLbl k)) detected_anomalies))"
    by simp
  from metrics_after_counts [OF c] c fn
  show "\<exists>c. metrics_counts anomDetns anomDetn anomLbl detected_anomalies invalid_detections =
             Inr c \<and>
           FalseNegatives c =
             NpInt (int (length anomDetn) - int (count_list anomLbl 0) -
               sum_list (map (\<lambda>k. int (count_list anomLbl k)) detected_anomalies)) \<and>
           (metrics anomDetns anomDetn anomLbl detected_anomalies invalid_detections =
              Inl ZeroDivisionError \<or>
            (\<exists>r. metrics anomDetns anomDetn anomLbl detected_anomalies invalid_detections =
                   Inr r \<and>
                 FalseNegatives r = FalseNegatives c))"
    by blast
next
  assume w: "windowing srs normal_lbl frame =
      Inr (anomLbl, anomDetn, anomDetns, detected_anomalies, invalid_detections)"
  show "set detected_anomalies \<subseteq> set anomLbl"
    using windowing_detected_distinct [OF w] by simp
  show "set invalid_detections \<subseteq> set anomDetns"
    by (rule windowing_invalid_subset [OF w])
next
  show "0 \<notin> set (determine_events (True # replicate (Suc n) False))"
    by (rule determine_events_no_zero)
qed

text \<open>
  The theorem on the label event series \<open>[1,1,1]\<close>, which is the segmentation of the label
  flags \<open>[F,T,T]\<close>, and on the output of \<open>windowing\<close> for the label flags
  \<open>[F,F,T,T,F,F,T,F]\<close> and the detection flags \<open>[F,F,F,T,T,F,T,F]\<close>, where FN is 0 and
  the report is returned.
\<close>

theorem metrics_lookup_of_zero_witness:
  "metrics [1, 1, 1] [False, True, True] [1, 1, 1] [1] [] = Inl LookupError \<and>
   determine_events [True, False, False] = [1, 1, 1] \<and>
   windowing ()
      [(0::nat, True), (1, True), (2, False), (3, False), (4, True), (5, True), (6, False),
       (7, True)]
      (map_of [(0, False), (1, False), (2, False), (3, True), (4, True), (5, False), (6, True),
       (7, False)]) =
    Inr ([0, 1, 1, 1, 1, 2, 2, 2], [False, False, False, True, True, False, True, False],
         [0, 0, 1, 1, 1, 2, 2, 2], [1, 2], []) \<and>
   (\<exists>r. metrics [0, 0, 1, 1, 1, 2, 2, 2]
          [False, False, False, True, True, False, True, False] [0, 1, 1, 1, 1, 2, 2, 2]
          [1, 2] [] = Inr r \<and>
        FalseNegatives r = NpInt 0)"
proof -
  have ev: "determine_events [True, False, False] = [1, 1, 1]" by code_simp
  have w: "windowing ()
      [(0::nat, True), (1, True), (2, False), (3, False), (4, True), (5, True), (6, False),
       (7, True)]
      (map_of [(0, False), (1, False), (2, False), (3, True), (4, True), (5, False), (6, True),
       (7, False)]) =
    Inr ([0, 1, 1, 1, 1, 2, 2, 2], [False, False, False, True, True, False, True, False],
         [0, 0, 1, 1, 1, 2, 2, 2], [1, 2], [])"
    by code_simp
  have nz: "metrics [0, 0, 1, 1, 1, 2, 2, 2]
          [False, False, False, True, True, False, True, False] [0, 1, 1, 1, 1, 2, 2, 2]
          [1, 2] [] \<noteq> Inl ZeroDivisionError"
    by (simp add: metrics_def metrics_counts_closed s_div_def s_add_def s_mul_def arith_def
        Let_def)
  show ?thesis
    using metrics_lookup_of_zero [of "[1, 1, 1]" "[1, 1, 1]" "[False, True, True]" "[1]" "[]"
        "()" "[]" "Map.empty :: nat \<rightharpoonup> bool" 0]
      metrics_lookup_of_zero [of "[0, 1, 1, 1, 1, 2, 2, 2]" "[0, 0, 1, 1, 1, 2, 2, 2]"
        "[False, False, False, True, True, False, True, False]" "[1, 2]" "[]" "()"
        "[(0::nat, True), (1, True), (2, False), (3, False), (4, True), (5, True), (6, False),
          (7, True)]"
        "map_of [(0::nat, False), (1, False), (2, False), (3, True), (4, True), (5, False),
          (6, True), (7, False)]" 0] w nz
    by (auto simp add: ev)
qed

end
